theory Spec2Isabelle
  imports Main "HOL-Library.Word"
begin

unbundle bit_operations_syntax

chapter \<open>The program\<close>

section \<open>JavaScript strings\<close>

text \<open>
  Strings are lists of characters. The account file, the URLs and the patterns of this
  program are ASCII text, so a character is a byte and the white space of
  \<^verbatim>\<open>String.prototype.trim\<close> and of the regular expression class \<^verbatim>\<open>\s\<close> is
  tab, line feed, vertical tab, form feed, carriage return and space.
\<close>

definition isWhiteSpace :: "char \<Rightarrow> bool" where
  "isWhiteSpace c = (c \<in> set [CHR 0x09, CHR 0x0A, CHR 0x0B, CHR 0x0C, CHR 0x0D, CHR 0x20])"

definition js_trim :: "string \<Rightarrow> string" where
  "js_trim s = rev (dropWhile isWhiteSpace (rev (dropWhile isWhiteSpace s)))"

text \<open>\<^verbatim>\<open>s.split(sep)\<close> for a one-character separator: the empty string gives one empty field.\<close>

fun js_split :: "char \<Rightarrow> string \<Rightarrow> string list" where
  "js_split sep [] = [[]]"
| "js_split sep (c # cs) =
     (if c = sep then [] # js_split sep cs
      else (case js_split sep cs of
              [] \<Rightarrow> [[c]]
            | w # ws \<Rightarrow> (c # w) # ws))"

fun startsWith :: "string \<Rightarrow> string \<Rightarrow> bool" where
  "startsWith s [] = True"
| "startsWith [] (p # ps) = False"
| "startsWith (c # cs) (p # ps) = (c = p \<and> startsWith cs ps)"

text \<open>\<^verbatim>\<open>s.includes(pat)\<close>: the pattern occurs at some position of the string.\<close>

fun js_includes :: "string \<Rightarrow> string \<Rightarrow> bool" where
  "js_includes [] pat = (pat = [])"
| "js_includes (c # cs) pat = (startsWith (c # cs) pat \<or> js_includes cs pat)"

text \<open>\<^verbatim>\<open>s.replace(/\s/g, '')\<close>.\<close>

definition removeWhiteSpace :: "string \<Rightarrow> string" where
  "removeWhiteSpace s = filter (\<lambda>c. \<not> isWhiteSpace c) s"

definition isUpperAlnum :: "char \<Rightarrow> bool" where
  "isUpperAlnum c =
     ((65 \<le> (of_char c :: nat) \<and> (of_char c :: nat) \<le> 90) \<or>
      (48 \<le> (of_char c :: nat) \<and> (of_char c :: nat) \<le> 57))"

text \<open>The regular expression \<^verbatim>\<open>/^[A-Z0-9]{16,}$/\<close>, tested on the whole string.\<close>

definition totpPattern :: "string \<Rightarrow> bool" where
  "totpPattern s = (16 \<le> length s \<and> list_all isUpperAlnum s)"

section \<open>Account manager (accountManager.ts)\<close>

record AccountInfo =
  email :: string
  password :: string
  twoStepCode :: string
  isTotp :: bool

text \<open>
  \<^verbatim>\<open>usedAccounts\<close> is a JavaScript \<^verbatim>\<open>Set<string>\<close>: a duplicate-free collection in
  insertion order. It is modelled as a list; \<open>set_add\<close> appends an element that is not
  yet present, \<^verbatim>\<open>size\<close> is the length and \<^verbatim>\<open>clear()\<close> gives the empty list.
\<close>

definition set_add :: "'a list \<Rightarrow> 'a \<Rightarrow> 'a list" where
  "set_add xs v = (if v \<in> set xs then xs else xs @ [v])"

definition set_delete :: "'a list \<Rightarrow> 'a \<Rightarrow> 'a list" where
  "set_delete xs v = filter (\<lambda>w. w \<noteq> v) xs"

record AccountManager =
  accounts :: "AccountInfo list"
  usedAccounts :: "string list"

definition newAccountManager :: AccountManager where
  "newAccountManager = \<lparr>accounts = [], usedAccounts = []\<rparr>"

text \<open>
  The body of the loop of \<^verbatim>\<open>parseAccounts\<close> for one line: the account that is pushed,
  or \<open>None\<close> when the line has fewer than three fields. Nothing in the body throws,
  so the \<^verbatim>\<open>catch\<close> branch is never taken.
\<close>

definition parseLine :: "string \<Rightarrow> AccountInfo option" where
  "parseLine line =
     (let parts = map js_trim (js_split (CHR 0x09) line)
      in if 3 \<le> length parts
         then Some \<lparr>email = parts ! 0, password = parts ! 1, twoStepCode = parts ! 2,
                    isTotp = totpPattern (removeWhiteSpace (parts ! 2))\<rparr>
         else None)"

fun parseLoop :: "string list \<Rightarrow> AccountInfo list \<Rightarrow> AccountInfo list" where
  "parseLoop [] accs = accs"
| "parseLoop (line # lines) accs =
     (case parseLine line of
        Some a \<Rightarrow> parseLoop lines (accs @ [a])
      | None \<Rightarrow> parseLoop lines accs)"

definition parseAccounts :: "string \<Rightarrow> AccountInfo list" where
  "parseAccounts content =
     parseLoop (filter (\<lambda>line. js_trim line \<noteq> []) (js_split (CHR 0x0A) content)) []"

text \<open>
  \<^verbatim>\<open>loadAccounts\<close> replaces the account list by the parsed file and leaves
  \<^verbatim>\<open>usedAccounts\<close> as it is. The argument is the text of accounts.txt, \<open>None\<close> when
  the file cannot be read (the source then throws).
\<close>

datatype pool_error = CannotLoadAccounts | NoAccounts

definition loadAccounts :: "string option \<Rightarrow> AccountManager \<Rightarrow> pool_error + AccountManager" where
  "loadAccounts file am =
     (case file of
        None \<Rightarrow> Inl CannotLoadAccounts
      | Some content \<Rightarrow> Inr (am\<lparr>accounts := parseAccounts content\<rparr>))"

text \<open>
  \<^verbatim>\<open>getNextAccount\<close>: the first account whose email is not in the used-set; when the
  loop finds none and the size of the used-set equals the number of accounts, the used-set
  is cleared and the first account (if any) is returned; otherwise \<^verbatim>\<open>null\<close>.
\<close>

definition getNextAccount :: "AccountManager \<Rightarrow> AccountInfo option \<times> AccountManager" where
  "getNextAccount am =
     (case find (\<lambda>a. email a \<notin> set (usedAccounts am)) (accounts am) of
        Some a \<Rightarrow> (Some a, am)
      | None \<Rightarrow>
          if length (usedAccounts am) = length (accounts am)
          then ((case accounts am of [] \<Rightarrow> None | a # _ \<Rightarrow> Some a),
                am\<lparr>usedAccounts := []\<rparr>)
          else (None, am))"

definition markAccountAsUsed :: "string \<Rightarrow> AccountManager \<Rightarrow> AccountManager" where
  "markAccountAsUsed e am = am\<lparr>usedAccounts := set_add (usedAccounts am) e\<rparr>"

definition getTotalAccountCount :: "AccountManager \<Rightarrow> nat" where
  "getTotalAccountCount am = length (accounts am)"

section \<open>Window placement (browserManager.ts)\<close>

text \<open>
  JavaScript's bitwise operators first convert their operands to signed 32-bit integers
  (ToInt32) and return a signed 32-bit integer. The arithmetic between two bitwise
  operators (\<^verbatim>\<open>(hash << 5) - hash + code\<close>) is ordinary number arithmetic, which is
  exact on integers of magnitude below \<open>2 ^ 53\<close>; a TCP port and a UTF-16 code unit
  are far below that, so the model computes on \<open>int\<close> and wraps where the source's
  operators do.
\<close>

definition ToInt32 :: "int \<Rightarrow> 32 word" where
  "ToInt32 v = word_of_int v"

definition js_shl :: "int \<Rightarrow> nat \<Rightarrow> int" where
  "js_shl v k = sint (push_bit k (ToInt32 v))"

definition js_sar :: "int \<Rightarrow> nat \<Rightarrow> int" where
  "js_sar v k = sint (signed_drop_bit k (ToInt32 v))"

definition js_and :: "int \<Rightarrow> int \<Rightarrow> int" where
  "js_and a b = sint (ToInt32 a AND ToInt32 b)"

text \<open>
  The loop \<^verbatim>\<open>for (i = 0; i < email.length; i++) hash = ((hash << 5) - hash +
  email.charCodeAt(i)) & 0xffffffff\<close>. The email is given as the list of its UTF-16
  code units, which is what \<^verbatim>\<open>charCodeAt\<close> reads; an absent or empty email is the
  empty list (\<^verbatim>\<open>if (email)\<close> skips the loop for both).
\<close>

fun hashEmail :: "int \<Rightarrow> nat list \<Rightarrow> int" where
  "hashEmail hash [] = hash"
| "hashEmail hash (c # cs) =
     hashEmail (js_and (js_shl hash 5 - hash + int c) 0xffffffff) cs"

record window_position =
  pos_x :: int
  pos_y :: int

definition calculateWindowPosition :: "int \<Rightarrow> nat list \<Rightarrow> window_position" where
  "calculateWindowPosition port codes =
     (let hash = hashEmail port codes;
          xOffset = \<bar>hash\<bar> mod 8;
          yOffset = \<bar>js_sar hash 8\<bar> mod 6;
          baseX = 50;
          baseY = 50;
          xOffsetStep = 150;
          yOffsetStep = 120;
          x = baseX + xOffset * xOffsetStep;
          y = baseY + yOffset * yOffsetStep;
          maxX = 1920 - 1080 - 50;
          maxY = 1080 - 720 - 100
      in \<lparr>pos_x = min x maxX, pos_y = min y maxY\<rparr>)"

section \<open>The account file as the specification describes it\<close>

text \<open>
  A line of the account file is valid when it is not blank and has at least three
  tab-separated fields, that is, at least two tab characters. The second factor is a
  rotating-code secret when the third field, with all white space removed, consists of
  at least 16 upper-case letters and digits.
\<close>

definition nonBlank :: "string \<Rightarrow> bool" where
  "nonBlank l = list_ex (\<lambda>c. \<not> isWhiteSpace c) l"

definition fieldCount :: "string \<Rightarrow> nat" where
  "fieldCount l = Suc (count_list l (CHR 0x09))"

definition validLine :: "string \<Rightarrow> bool" where
  "validLine l = (nonBlank l \<and> 3 \<le> fieldCount l)"

definition thirdField :: "string \<Rightarrow> string" where
  "thirdField l = js_split (CHR 0x09) l ! 2"

definition isUpperOrDigit :: "char \<Rightarrow> bool" where
  "isUpperOrDigit c = (c \<in> set ''ABCDEFGHIJKLMNOPQRSTUVWXYZ0123456789'')"

definition rotatingCodeRule :: "string \<Rightarrow> bool" where
  "rotatingCodeRule field =
     (let s = filter (\<lambda>c. \<not> isWhiteSpace c) field
      in 16 \<le> length s \<and> list_all isUpperOrDigit s)"

definition credentialOf :: "string \<Rightarrow> AccountInfo" where
  "credentialOf l =
     (let fs = js_split (CHR 0x09) l
      in \<lparr>email = js_trim (fs ! 0), password = js_trim (fs ! 1),
          twoStepCode = js_trim (fs ! 2), isTotp = rotatingCodeRule (fs ! 2)\<rparr>)"

text \<open>The two example lines of the README and of the setup script, tab-separated.\<close>

definition exampleAccountsFile :: string where
  "exampleAccountsFile =
     ''user1@gmail.com'' @ [CHR 0x09] @ ''password123'' @ [CHR 0x09] @
       ''QEJA633DACRGZM25AD6PHHHYB3MWHACW'' @ [CHR 0x0A] @
     ''user2@gmail.com'' @ [CHR 0x09] @ ''password456'' @ [CHR 0x09] @
       ''u5pg omhv bx23 stji 7wrw jesx l4ja lfz7'' @ [CHR 0x0A]"

section \<open>Task pool: tasks and enqueueing (pool.ts)\<close>

text \<open>
  The wall clock is not modelled: \<^verbatim>\<open>startTime\<close>, \<^verbatim>\<open>endTime\<close>, the duration and the
  time stamp of a result are left out. A task id is the string
  \<^verbatim>\<open>task-${i}-${Date.now()}\<close>; it is represented by its counter \<open>i\<close>, which
  alone already tells two ids of one \<^verbatim>\<open>addTasks\<close> call apart.
\<close>

datatype TaskStatus = PENDING | RUNNING | COMPLETED | FAILED

record Task =
  task_id :: nat
  status :: TaskStatus
  error_text :: "string option"
  account :: "AccountInfo option"

record TaskResult =
  result_email :: string
  success :: bool
  result_error :: "string option"
  attempts :: nat

datatype log_line = BatchStart nat | ResultLine TaskResult | BatchEnd nat nat

datatype console_line = WarnNoAccount nat | TasksAdded nat | Shortfall nat nat

text \<open>
  What \<^verbatim>\<open>main\<close> did for one task, as far as the pool can tell: the browser could not
  be launched or attached (the flag says whether the browser process had been started),
  the login flow threw, or the login flow returned.
\<close>

datatype main_outcome =
    LaunchFailed bool string
  | LoginFailed string
  | LoginSucceeded

text \<open>
  The browser of a task as \<^verbatim>\<open>main\<close> leaves it: whether the browser process is still
  running and whether the automation client is still attached.
\<close>

record BrowserSession =
  process_running :: bool
  browser_connected :: bool

datatype phase = AwaitMain | AwaitLog | AwaitFinally

text \<open>
  The fields of the class \<^verbatim>\<open>TaskPool\<close>, followed by what the pool acts on: the Task
  objects held by the \<^verbatim>\<open>executeTask\<close> calls that have not returned yet (with the
  \<^verbatim>\<open>await\<close> each of them is suspended at), the ids handed to \<^verbatim>\<open>executeTask\<close> so far
  in call order, the Task objects of the calls that have returned, the lines appended to
  logs.txt, the browser sessions left by \<^verbatim>\<open>main\<close> and the existing per-account profile
  folders.
\<close>

record TaskPool =
  poolSize :: nat
  tasks :: "Task list"
  runningTasks :: "nat list"
  completedTasks :: nat
  failedTasks :: nat
  executing :: "(Task \<times> phase) list"
  executed :: "nat list"
  returned :: "Task list"
  logFile :: "log_line list"
  sessions :: "(nat \<times> BrowserSession) list"
  profiles :: "string list"

definition newTaskPool :: "nat \<Rightarrow> TaskPool" where
  "newTaskPool n =
     \<lparr>poolSize = n, tasks = [], runningTasks = [], completedTasks = 0, failedTasks = 0,
      executing = [], executed = [], returned = [], logFile = [], sessions = [],
      profiles = []\<rparr>"

text \<open>
  The loop \<^verbatim>\<open>for (let i = 1; i <= taskCount; i++)\<close> of \<^verbatim>\<open>addTasks\<close>, with \<open>k\<close> the
  number of iterations still to run. The state of the loop is the task queue, the
  account manager and the console output.
\<close>

fun addTasksLoop ::
  "nat \<Rightarrow> nat \<Rightarrow> Task list \<times> AccountManager \<times> console_line list \<Rightarrow>
   Task list \<times> AccountManager \<times> console_line list" where
  "addTasksLoop i 0 st = st"
| "addTasksLoop i (Suc k) (ts, am, out) =
     (case getNextAccount am of
        (None, am') \<Rightarrow> addTasksLoop (Suc i) k (ts, am', out @ [WarnNoAccount i])
      | (Some a, am') \<Rightarrow>
          addTasksLoop (Suc i) k
            (ts @ [\<lparr>task_id = i, status = PENDING, error_text = None, account = Some a\<rparr>],
             markAccountAsUsed (email a) am', out))"

definition addTasks ::
  "nat \<Rightarrow> string option \<Rightarrow> TaskPool \<times> AccountManager \<Rightarrow>
   pool_error + (TaskPool \<times> AccountManager \<times> console_line list)" where
  "addTasks taskCount file st =
     (case st of (pool, am) \<Rightarrow>
        (case loadAccounts file am of
           Inl e \<Rightarrow> Inl e
         | Inr am1 \<Rightarrow>
             if getTotalAccountCount am1 = 0 then Inl NoAccounts
             else (case addTasksLoop 1 taskCount (tasks pool, am1, []) of
                     (ts, am2, out) \<Rightarrow>
                       Inr (pool\<lparr>tasks := ts, logFile := logFile pool @ [BatchStart (length ts)]\<rparr>,
                            am2,
                            out @ [TasksAdded (length ts)] @
                              (if length ts < taskCount then [Shortfall (length ts) taskCount]
                               else [])))))"

section \<open>Account stores used as examples\<close>

definition tab :: string where
  "tab = [CHR 0x09]"

definition newline :: string where
  "newline = [CHR 0x0A]"

text \<open>Two accounts with different identifiers.\<close>

definition twoAccountsFile :: string where
  "twoAccountsFile =
     ''a@x.com'' @ tab @ ''pw1'' @ tab @ ''k1'' @ newline @
     ''b@x.com'' @ tab @ ''pw2'' @ tab @ ''k2''"

text \<open>The same account listed on two lines.\<close>

definition duplicateAccountsFile :: string where
  "duplicateAccountsFile =
     ''a@x.com'' @ tab @ ''pw1'' @ tab @ ''k1'' @ newline @
     ''a@x.com'' @ tab @ ''pw1'' @ tab @ ''k1''"

section \<open>Notions used to state the properties of the account store\<close>

text \<open>
  A store is well formed when its identifiers are pairwise different and the used-set
  holds identifiers of the store only. All credentials are marked used when the email of
  every account is in the used-set.
\<close>

definition storeInvariant :: "AccountManager \<Rightarrow> bool" where
  "storeInvariant am =
     (distinct (map email (accounts am)) \<and> distinct (usedAccounts am) \<and>
      set (usedAccounts am) \<subseteq> set (map email (accounts am)))"

definition allMarkedUsed :: "AccountManager \<Rightarrow> bool" where
  "allMarkedUsed am = list_all (\<lambda>a. email a \<in> set (usedAccounts am)) (accounts am)"

text \<open>The task that \<^verbatim>\<open>addTasks\<close> builds in iteration \<open>i\<close> for the account \<open>a\<close>.\<close>

definition mkTask :: "nat \<Rightarrow> AccountInfo \<Rightarrow> Task" where
  "mkTask i a = \<lparr>task_id = i, status = PENDING, error_text = None, account = Some a\<rparr>"

section \<open>Login flow driver (googleLogin.ts)\<close>

text \<open>
  The errors that \<^verbatim>\<open>performGoogleLogin\<close> throws itself, in the order of the source:
  wrong account or password, wrong two-step code, too many retries, two-step code not
  configured, and a URL that no rule handles.
\<close>

datatype login_error =
    InvalidCredentials
  | InvalidSecondFactor
  | TooManyRetries
  | TwoStepCodeMissing
  | UnhandledUrl

text \<open>
  What the driver does to the page in one iteration of its loop. Times are in
  milliseconds. \<open>FillTotp\<close> carries the seed from which the one-time code is computed
  (the code generator is a library and is not modelled). \<open>ManualVerification\<close> is the
  call of \<^verbatim>\<open>waitForManualVerification\<close> with its pattern.
\<close>

datatype page_action =
    Sleep nat
  | Reload
  | Click string
  | Focus string
  | KeyboardType string
  | WaitVisible string
  | FillTotp string
  | ClickSelector string
  | ManualVerification string
  | BringToFront
  | AddHighlightBorder
  | RemoveHighlightBorder

record driver_state =
  lastUrl :: string
  retryCount :: int

definition initialDriverState :: driver_state where
  "initialDriverState = \<lparr>lastUrl = [], retryCount = 0\<rparr>"

definition noNeedCountUrlMatch :: "string list" where
  "noNeedCountUrlMatch =
     [''challenge/kpe'', ''challenge/ipe/verify'', ''challenge/iap'', ''challenge/recaptcha'',
      ''challenge/ipp/consent'', ''accounts/SetSID'', ''challenge/ipp/verify'']"

text \<open>\<^verbatim>\<open>noNeedCountUrlMatch.some((_url) => url.includes(_url))\<close>.\<close>

definition noNeedCount :: "string \<Rightarrow> bool" where
  "noNeedCount url = list_ex (\<lambda>p. js_includes url p) noNeedCountUrlMatch"

text \<open>\<^verbatim>\<open>(await page.url()).split("?")[0]\<close>.\<close>

definition stripQuery :: "string \<Rightarrow> string" where
  "stripQuery full = (case js_split (CHR ''?'') full of [] \<Rightarrow> [] | u # _ \<Rightarrow> u)"

datatype step_result =
    Throw login_error
  | LoggedIn driver_state
  | Next driver_state "page_action list"

text \<open>
  The part of an iteration that is taken when the URL is unchanged and the counter is not
  \<open>-1\<close>: the ceiling, the reload of a frozen identifier page, the counting, the sleep.
\<close>

definition stalled :: "driver_state \<Rightarrow> string \<Rightarrow> step_result" where
  "stalled st url =
     (if retryCount st > 15
      then (if js_includes url ''challenge/pwd'' then Throw InvalidCredentials
            else if js_includes url ''challenge/totp'' then Throw InvalidSecondFactor
            else Throw TooManyRetries)
      else if retryCount st > 5 \<and> js_includes url ''signin/identifier''
      then Next (st\<lparr>retryCount := - 1\<rparr>) [Reload]
      else Next (if \<not> noNeedCount url then st\<lparr>retryCount := retryCount st + 1\<rparr> else st)
             [Sleep 1000])"

text \<open>
  The rest of an iteration, for a URL that is new (or seen again right after a reload):
  the test for having left the login domain, then the chain of rules. The flag
  \<open>authenticatorOption\<close> says whether the page offers the authenticator option
  (\<^verbatim>\<open>isElementExist\<close>).
\<close>

definition dispatch :: "AccountInfo \<Rightarrow> bool \<Rightarrow> driver_state \<Rightarrow> string \<Rightarrow> step_result" where
  "dispatch acc authenticatorOption st url =
     (if \<not> startsWith url ''https://accounts.google.com/'' \<and>
         \<not> js_includes url ''challenge/ipp/verify'' \<and>
         \<not> js_includes url ''accounts/SetSID''
      then LoggedIn st
      else if js_includes url ''signin/identifier''
      then Next st [Click ''input[type=email]'', Sleep 500, KeyboardType (email acc),
                    Click ''#identifierNext'']
      else if js_includes url ''challenge/pwd''
      then Next st [Focus ''input[type=password]'', Sleep 500, KeyboardType (password acc),
                    Click ''#passwordNext'']
      else if js_includes url ''challenge/totp''
      then (if twoStepCode acc = [] then Throw TwoStepCodeMissing
            else Next st [WaitVisible ''input[type=tel]'',
                          FillTotp (filter (\<lambda>c. c \<noteq> CHR '' '') (twoStepCode acc)),
                          Sleep 500, ClickSelector ''next-button''])
      else if js_includes url ''signin/oauth/id''
      then Next st [ClickSelector ''continue-button'']
      else if js_includes url ''signin/challenge/pk/presend''
      then Next st [ClickSelector ''try-other-login-methods'']
      else if js_includes url ''challenge/selection''
      then (if authenticatorOption
            then Next st [ClickSelector ''get-a-verification-code-from-google-authenticator'']
            else Next st [ManualVerification ''challenge/selection''])
      else if js_includes url ''challenge/kpe''
      then Next st [ManualVerification ''challenge/kpe'']
      else if js_includes url ''challenge/ipe/verify''
      then Next st [ManualVerification ''challenge/ipe/verify'']
      else if js_includes url ''challenge/iap''
      then Next st [ManualVerification ''challenge/iap'']
      else if js_includes url ''challenge/recaptcha''
      then Next st [ManualVerification ''challenge/recaptcha'']
      else if js_includes url ''challenge/ipp/consent''
      then Next st [ManualVerification ''challenge/ipp/consent'']
      else if js_includes url ''accounts/SetSID'' \<or> js_includes url ''challenge/ipp/verify''
      then Next st []
      else Throw UnhandledUrl)"

text \<open>
  One iteration of \<^verbatim>\<open>while (!isGoogleLogined)\<close>, for the URL that \<^verbatim>\<open>page.url()\<close>
  returns at its start.
\<close>

definition loginStep :: "AccountInfo \<Rightarrow> bool \<Rightarrow> driver_state \<Rightarrow> string \<Rightarrow> step_result" where
  "loginStep acc authenticatorOption st full =
     (let url = stripQuery full
      in if url = lastUrl st \<and> retryCount st \<noteq> - 1
         then stalled st url
         else dispatch acc authenticatorOption (st\<lparr>retryCount := 0, lastUrl := url\<rparr>) url)"

text \<open>
  The loop over the successive URLs that its iterations read, each with the flag for the
  authenticator option. The result is \<open>Throw\<close> or \<open>LoggedIn\<close> when the loop ends
  within these polls, and \<open>Next\<close> with the state reached when it is still running after
  the last of them.
\<close>

fun loginPolls ::
  "AccountInfo \<Rightarrow> driver_state \<Rightarrow> (string \<times> bool) list \<Rightarrow> step_result" where
  "loginPolls acc st [] = Next st []"
| "loginPolls acc st ((full, opt) # polls) =
     (case loginStep acc opt st full of
        Next st' acts \<Rightarrow> loginPolls acc st' polls
      | r \<Rightarrow> r)"




section \<open>Notions used to state the properties of the login flow\<close>

text \<open>
  The patterns of the rules of the driver, in the order in which the source tests them.
  The state of the flow at a URL is the first pattern that the URL includes. The
  manual-intervention states are the five whose rule does nothing but wait for a human.
\<close>

definition rulePatterns :: "string list" where
  "rulePatterns =
     [''signin/identifier'', ''challenge/pwd'', ''challenge/totp'', ''signin/oauth/id'',
      ''signin/challenge/pk/presend'', ''challenge/selection'', ''challenge/kpe'',
      ''challenge/ipe/verify'', ''challenge/iap'', ''challenge/recaptcha'',
      ''challenge/ipp/consent'', ''accounts/SetSID'', ''challenge/ipp/verify'']"

definition flowState :: "string \<Rightarrow> string option" where
  "flowState url = find (\<lambda>p. js_includes url p) rulePatterns"


definition onLoginDomain :: "string \<Rightarrow> bool" where
  "onLoginDomain url =
     (startsWith url ''https://accounts.google.com/'' \<or>
      js_includes url ''challenge/ipp/verify'' \<or> js_includes url ''accounts/SetSID'')"


text \<open>
  What holds of the counter in every state of the loop: it lies between \<open>-1\<close> and
  \<open>16\<close>, it does not pass \<open>6\<close> while the last URL is the identifier page, and it is
  \<open>0\<close> while the last URL is exempt from counting.
\<close>

definition driverInv :: "driver_state \<Rightarrow> bool" where
  "driverInv st =
     (- 1 \<le> retryCount st \<and> retryCount st \<le> 16 \<and>
      (js_includes (lastUrl st) ''signin/identifier'' \<longrightarrow> retryCount st \<le> 6) \<and>
      (noNeedCount (lastUrl st) \<longrightarrow> retryCount st = 0))"

section \<open>URLs and an account used as examples\<close>

definition exampleAccount :: AccountInfo where
  "exampleAccount =
     \<lparr>email = ''user1@gmail.com'', password = ''password123'',
      twoStepCode = ''QEJA633DACRGZM25AD6PHHHYB3MWHACW'', isTotp = True\<rparr>"

definition identifierUrl :: string where
  "identifierUrl = ''https://accounts.google.com/v3/signin/identifier''"

definition passwordUrl :: string where
  "passwordUrl = ''https://accounts.google.com/v3/signin/challenge/pwd''"

definition totpUrl :: string where
  "totpUrl = ''https://accounts.google.com/v3/signin/challenge/totp''"

definition consentUrl :: string where
  "consentUrl = ''https://accounts.google.com/signin/oauth/id''"






section \<open>Running one task (index.ts and pool.ts)\<close>

text \<open>
  \<^verbatim>\<open>main\<close>, seen from the pool: the state in which it leaves the browser of the task,
  and the message of the error it throws, if any. When the launch fails no session
  object exists and nothing is cleaned up. When the login flow throws, the \<^verbatim>\<open>catch\<close>
  block kills the process and closes the automation client before the error is thrown
  again. When the login flow returns, the page is brought to the front and the session is
  left as it is.
\<close>

definition main :: "main_outcome \<Rightarrow> BrowserSession \<times> string option" where
  "main outcome =
     (case outcome of
        LaunchFailed started msg \<Rightarrow>
          (\<lparr>process_running = started, browser_connected = False\<rparr>, Some msg)
      | LoginFailed msg \<Rightarrow>
          (\<lparr>process_running = False, browser_connected = False\<rparr>, Some msg)
      | LoginSucceeded \<Rightarrow>
          (\<lparr>process_running = True, browser_connected = True\<rparr>, None))"

text \<open>
  The folder of an account below \<^verbatim>\<open>profiles\<close>:
  \<^verbatim>\<open>email.replaceAll("@", "_").replaceAll(".", "_").trim()\<close>. A browser process that was
  started has created it.
\<close>

definition profileFolder :: "string \<Rightarrow> string" where
  "profileFolder e = js_trim (map (\<lambda>c. if c = CHR ''@'' \<or> c = CHR ''.'' then CHR ''_'' else c) e)"

definition processStarted :: "main_outcome \<Rightarrow> bool" where
  "processStarted outcome = (case outcome of LaunchFailed started msg \<Rightarrow> started | _ \<Rightarrow> True)"

text \<open>
  \<^verbatim>\<open>executeTask\<close> runs in four pieces, separated by its \<^verbatim>\<open>await\<close>s. The first
  piece runs inside the admission loop, up to \<^verbatim>\<open>await main(...)\<close>.
\<close>

definition executeTask_start :: "Task \<Rightarrow> TaskPool \<Rightarrow> TaskPool" where
  "executeTask_start t s =
     s\<lparr>runningTasks := set_add (runningTasks s) (task_id t),
       executing := executing s @ [(t\<lparr>status := RUNNING\<rparr>, AwaitMain)],
       executed := executed s @ [task_id t]\<rparr>"

definition setExecuting :: "Task \<Rightarrow> phase \<Rightarrow> (Task \<times> phase) list \<Rightarrow> (Task \<times> phase) list" where
  "setExecuting t ph ex =
     map (\<lambda>(u, q). if task_id u = task_id t then (t, ph) else (u, q)) ex"

text \<open>
  The second piece runs when \<^verbatim>\<open>main\<close> has settled: the status, the error text and
  the counters, up to \<^verbatim>\<open>await logger.logTaskResult(...)\<close>.
\<close>

definition executeTask_settled :: "Task \<Rightarrow> main_outcome \<Rightarrow> TaskPool \<Rightarrow> TaskPool" where
  "executeTask_settled t outcome s =
     (let s1 = s\<lparr>sessions := sessions s @ [(task_id t, fst (main outcome))],
                 profiles := (case account t of
                                Some a \<Rightarrow> if processStarted outcome
                                          then set_add (profiles s) (profileFolder (email a))
                                          else profiles s
                              | None \<Rightarrow> profiles s)\<rparr>
      in case snd (main outcome) of
           None \<Rightarrow>
             s1\<lparr>executing := setExecuting (t\<lparr>status := COMPLETED\<rparr>) AwaitLog (executing s),
                completedTasks := completedTasks s + 1\<rparr>
         | Some msg \<Rightarrow>
             s1\<lparr>executing :=
                  setExecuting (t\<lparr>error_text := Some msg, status := FAILED\<rparr>) AwaitLog (executing s),
                failedTasks := failedTasks s + 1\<rparr>)"

text \<open>
  The third piece: the result record is appended to the log and the profile folder of
  the account is removed, both only for a task that has an account. The record of a
  completed task and the record of a failed task both carry \<^verbatim>\<open>attempts: 1\<close>.
\<close>

definition executeTask_logged :: "Task \<Rightarrow> TaskPool \<Rightarrow> TaskPool" where
  "executeTask_logged t s =
     (case account t of
        None \<Rightarrow> s\<lparr>executing := setExecuting t AwaitFinally (executing s)\<rparr>
      | Some a \<Rightarrow>
          s\<lparr>logFile := logFile s @
               [ResultLine \<lparr>result_email = email a, success = (status t = COMPLETED),
                            result_error = error_text t, attempts = 1\<rparr>],
            profiles := set_delete (profiles s) (profileFolder (email a)),
            executing := setExecuting t AwaitFinally (executing s)\<rparr>)"

text \<open>The last piece is the \<^verbatim>\<open>finally\<close> block.\<close>

definition executeTask_finally :: "Task \<Rightarrow> TaskPool \<Rightarrow> TaskPool" where
  "executeTask_finally t s =
     s\<lparr>runningTasks := set_delete (runningTasks s) (task_id t),
       executing := filter (\<lambda>(u, q). task_id u \<noteq> task_id t) (executing s),
       returned := returned s @ [t]\<rparr>"

text \<open>
  What happens while the admission loop sleeps: the \<^verbatim>\<open>main\<close> of a task settles, the
  log and the profile folder of a task are done, or the \<^verbatim>\<open>executeTask\<close> of a task
  returns. An event for a task that is not suspended at the matching \<^verbatim>\<open>await\<close> cannot
  happen and changes nothing.
\<close>

datatype event = MainSettles nat main_outcome | ResultLogged nat | ExecuteTaskReturns nat

definition awaiting :: "TaskPool \<Rightarrow> nat \<Rightarrow> (Task \<times> phase) option" where
  "awaiting s i = find (\<lambda>(t, q). task_id t = i) (executing s)"

fun apply_event :: "event \<Rightarrow> TaskPool \<Rightarrow> TaskPool" where
  "apply_event (MainSettles i outcome) s =
     (case awaiting s i of
        Some (t, AwaitMain) \<Rightarrow> executeTask_settled t outcome s
      | _ \<Rightarrow> s)"
| "apply_event (ResultLogged i) s =
     (case awaiting s i of
        Some (t, AwaitLog) \<Rightarrow> executeTask_logged t s
      | _ \<Rightarrow> s)"
| "apply_event (ExecuteTaskReturns i) s =
     (case awaiting s i of
        Some (t, AwaitFinally) \<Rightarrow> executeTask_finally t s
      | _ \<Rightarrow> s)"

definition apply_events :: "event list \<Rightarrow> TaskPool \<Rightarrow> TaskPool" where
  "apply_events evs s = foldl (\<lambda>s e. apply_event e s) s evs"

text \<open>
  \<^verbatim>\<open>executeTask\<close> for one task from its call to its return, with nothing else
  happening in between.
\<close>

definition executeTask :: "Task \<Rightarrow> main_outcome \<Rightarrow> TaskPool \<Rightarrow> TaskPool" where
  "executeTask t outcome s =
     apply_events [MainSettles (task_id t) outcome, ResultLogged (task_id t),
                   ExecuteTaskReturns (task_id t)]
       (executeTask_start t s)"

section \<open>The admission loop (pool.ts)\<close>

text \<open>
  The inner loop \<^verbatim>\<open>while (this.runningTasks.size < this.config.poolSize &&
  this.tasks.length > 0)\<close>. It contains no \<^verbatim>\<open>await\<close>: each \<^verbatim>\<open>executeTask\<close> call
  runs up to its first \<^verbatim>\<open>await\<close> and hands control back.
\<close>

function admit :: "TaskPool \<Rightarrow> TaskPool" where
  "admit s =
     (if length (runningTasks s) < poolSize s \<and> tasks s \<noteq> []
      then admit (executeTask_start (hd (tasks s)) (s\<lparr>tasks := tl (tasks s)\<rparr>))
      else s)"
  by pat_completeness auto
termination
  by (relation "measure (\<lambda>s. length (tasks s))") (auto simp: executeTask_start_def)

declare admit.simps [simp del]




text \<open>
  The outer loop \<^verbatim>\<open>while (this.tasks.length > 0 || this.runningTasks.size > 0)\<close>. The
  schedule gives, for each \<^verbatim>\<open>await this.sleep(1000)\<close>, the events that happen during
  it. The result is \<open>None\<close> when the loop is still running at the end of the schedule.
\<close>

fun run_loop :: "event list list \<Rightarrow> TaskPool \<Rightarrow> TaskPool option" where
  "run_loop [] s = (if tasks s \<noteq> [] \<or> runningTasks s \<noteq> [] then None else Some s)"
| "run_loop (evs # sched) s =
     (if tasks s \<noteq> [] \<or> runningTasks s \<noteq> []
      then run_loop sched (apply_events evs (admit s))
      else Some s)"


text \<open>
  \<^verbatim>\<open>run\<close>: the folder \<^verbatim>\<open>profiles\<close> is removed, the loop runs, and the closing line
  with the two counters is appended to the log.
\<close>

definition run :: "event list list \<Rightarrow> TaskPool \<Rightarrow> TaskPool option" where
  "run sched s =
     (case run_loop sched (s\<lparr>profiles := []\<rparr>) of
        None \<Rightarrow> None
      | Some s' \<Rightarrow>
          Some (s'\<lparr>logFile := logFile s' @ [BatchEnd (completedTasks s') (failedTasks s')]\<rparr>))"

section \<open>Notions used to state the properties of the pool\<close>

text \<open>All Task objects of a pool: pending, in flight and done.\<close>

definition allTasks :: "TaskPool \<Rightarrow> Task list" where
  "allTasks s = tasks s @ map fst (executing s) @ returned s"


definition resultRecords :: "TaskPool \<Rightarrow> TaskResult list" where
  "resultRecords s = concat (map (\<lambda>l. case l of ResultLine r \<Rightarrow> [r] | _ \<Rightarrow> []) (logFile s))"

text \<open>
  A pool as \<^verbatim>\<open>runPool\<close> hands it to \<^verbatim>\<open>run\<close>: created with the configured size and
  filled by one call of \<^verbatim>\<open>addTasks\<close>.
\<close>

definition enqueued :: "nat \<Rightarrow> nat \<Rightarrow> string option \<Rightarrow> TaskPool option" where
  "enqueued n taskCount file =
     (case addTasks taskCount file (newTaskPool n, newAccountManager) of
        Inl e \<Rightarrow> None
      | Inr (pool, am, out) \<Rightarrow> Some pool)"

text \<open>
  What holds of a pool at every moment of a run, relative to the ids of the tasks that
  were enqueued: each id is either still pending or was handed to \<^verbatim>\<open>executeTask\<close>, in
  queue order and once; the set \<^verbatim>\<open>runningTasks\<close> holds exactly the ids of the calls in
  flight; and every id handed out is either in flight or has returned.
\<close>

definition pendingIds :: "TaskPool \<Rightarrow> nat list" where
  "pendingIds s = map task_id (tasks s)"

definition inFlightIds :: "TaskPool \<Rightarrow> nat list" where
  "inFlightIds s = map (\<lambda>(t, q). task_id t) (executing s)"

definition returnedIds :: "TaskPool \<Rightarrow> nat list" where
  "returnedIds s = map task_id (returned s)"

definition idsInv :: "nat list \<Rightarrow> TaskPool \<Rightarrow> bool" where
  "idsInv ids s =
     (distinct ids \<and>
      executed s @ pendingIds s = ids \<and>
      runningTasks s = inFlightIds s \<and>
      set (executed s) = set (runningTasks s) \<union> set (returnedIds s) \<and>
      distinct (runningTasks s @ returnedIds s))"

text \<open>
  Pending tasks have the status pending; a task in flight has left the status running
  once its \<^verbatim>\<open>main\<close> has settled; a task whose call has returned is not running.
\<close>

definition statusInv :: "TaskPool \<Rightarrow> bool" where
  "statusInv s =
     (list_all (\<lambda>t. status t = PENDING) (tasks s) \<and>
      list_all (\<lambda>(t, q). q \<noteq> AwaitMain \<longrightarrow> status t \<noteq> RUNNING) (executing s) \<and>
      list_all (\<lambda>t. status t \<noteq> RUNNING) (returned s))"

definition capacityInv :: "TaskPool \<Rightarrow> bool" where
  "capacityInv s = (length (runningTasks s) \<le> poolSize s)"

text \<open>
  Every task has an account, every result record in the log carries the attempt count 1,
  and the log holds one result record for each task that has passed its logging step.
\<close>

definition logInv :: "TaskPool \<Rightarrow> bool" where
  "logInv s =
     (list_all (\<lambda>t. account t \<noteq> None) (allTasks s) \<and>
      list_all (\<lambda>r. attempts r = 1) (resultRecords s) \<and>
      length (resultRecords s) =
        length (filter (\<lambda>(t, q). q = AwaitFinally) (executing s)) + length (returned s))"

definition poolInv :: "nat list \<Rightarrow> TaskPool \<Rightarrow> bool" where
  "poolInv ids s = (idsInv ids s \<and> statusInv s \<and> capacityInv s \<and> logInv s)"




text \<open>
  A property of the pool is preserved when every start of a task in the admission loop
  and every event keep it.
\<close>

definition preserved :: "(TaskPool \<Rightarrow> bool) \<Rightarrow> bool" where
  "preserved P =
     ((\<forall>s. P s \<and> length (runningTasks s) < poolSize s \<and> tasks s \<noteq> [] \<longrightarrow>
         P (executeTask_start (hd (tasks s)) (s\<lparr>tasks := tl (tasks s)\<rparr>))) \<and>
      (\<forall>s e. P s \<longrightarrow> P (apply_event e s)))"

text \<open>A task of the example that logs in and returns, on a pool of its own.\<close>

definition succeededExample :: TaskPool where
  "succeededExample = executeTask (mkTask 1 exampleAccount) LoginSucceeded (newTaskPool 1)"

definition failedExample :: TaskPool where
  "failedExample = executeTask (mkTask 1 exampleAccount) (LoginFailed ''bad'') (newTaskPool 1)"

chapter \<open>Properties\<close>

section \<open>Window placement\<close>

lemma window_x_range:
  "50 \<le> pos_x (calculateWindowPosition port codes) \<and>
   pos_x (calculateWindowPosition port codes) \<le> 790"
proof -
  have "0 \<le> \<bar>hashEmail port codes\<bar> mod 8"
    by simp
  then show ?thesis
    by (simp add: calculateWindowPosition_def Let_def)
qed

lemma window_y_range:
  "50 \<le> pos_y (calculateWindowPosition port codes) \<and>
   pos_y (calculateWindowPosition port codes) \<le> 260"
proof -
  have "0 \<le> \<bar>js_sar (hashEmail port codes) 8\<bar> mod 6"
    by simp
  then show ?thesis
    by (simp add: calculateWindowPosition_def Let_def)
qed

text \<open>
  Claim C10. The window position is a function of the port and the email alone (the
  source reads no clock, random source or other state, so the embedding is a HOL function
  of exactly these two arguments), and for every port and every email the coordinates
  satisfy \<open>50 \<le> x \<le> 790\<close> and \<open>50 \<le> y \<le> 260\<close>.
\<close>

theorem calculateWindowPosition_on_screen:
  "(\<exists>f. \<forall>port codes. calculateWindowPosition port codes = f (port, codes)) \<and>
   (50 \<le> pos_x (calculateWindowPosition port codes) \<and>
    pos_x (calculateWindowPosition port codes) \<le> 790 \<and>
    50 \<le> pos_y (calculateWindowPosition port codes) \<and>
    pos_y (calculateWindowPosition port codes) \<le> 260)"
proof
  show "\<exists>f. \<forall>port codes. calculateWindowPosition port codes = f (port, codes)"
    by (rule exI [of _ "\<lambda>(p, e). calculateWindowPosition p e"]) simp
next
  show "50 \<le> pos_x (calculateWindowPosition port codes) \<and>
    pos_x (calculateWindowPosition port codes) \<le> 790 \<and>
    50 \<le> pos_y (calculateWindowPosition port codes) \<and>
    pos_y (calculateWindowPosition port codes) \<le> 260"
    using window_x_range [of port codes] window_y_range [of port codes] by simp
qed

section \<open>Parsing the account file\<close>

lemma length_js_split: "length (js_split sep s) = Suc (count_list s sep)"
  by (induction s) (auto split: list.splits)

lemma filter_dropWhile_disjoint:
  "(\<And>x. P x \<Longrightarrow> \<not> Q x) \<Longrightarrow> filter Q (dropWhile P xs) = filter Q xs"
  by (induction xs) auto

lemma removeWhiteSpace_js_trim: "removeWhiteSpace (js_trim s) = removeWhiteSpace s"
  by (simp add: removeWhiteSpace_def js_trim_def filter_dropWhile_disjoint flip: rev_filter)

lemma js_trim_eq_Nil: "js_trim l = [] \<longleftrightarrow> \<not> nonBlank l"
proof
  assume "js_trim l = []"
  then have all: "\<forall>c\<in>set (dropWhile isWhiteSpace l). isWhiteSpace c"
    by (simp add: js_trim_def)
  have "dropWhile isWhiteSpace l = []"
  proof (rule ccontr)
    assume ne: "dropWhile isWhiteSpace l \<noteq> []"
    then have "\<not> isWhiteSpace (hd (dropWhile isWhiteSpace l))"
      by (rule hd_dropWhile)
    moreover have "hd (dropWhile isWhiteSpace l) \<in> set (dropWhile isWhiteSpace l)"
      using ne by simp
    ultimately show False using all by blast
  qed
  then show "\<not> nonBlank l"
    by (simp add: nonBlank_def list_ex_iff)
next
  assume "\<not> nonBlank l"
  then have "\<forall>c\<in>set l. isWhiteSpace c"
    by (simp add: nonBlank_def list_ex_iff)
  then show "js_trim l = []"
    by (auto simp: js_trim_def dest: set_dropWhileD)
qed

lemma isUpperAlnum_iff: "isUpperAlnum c = isUpperOrDigit c"
  by (cases c) (simp add: isUpperAlnum_def isUpperOrDigit_def)

lemma totpPattern_rule: "totpPattern (removeWhiteSpace (js_trim f)) = rotatingCodeRule f"
  by (simp add: totpPattern_def rotatingCodeRule_def removeWhiteSpace_js_trim Let_def
      isUpperAlnum_iff [abs_def])
    (simp add: removeWhiteSpace_def)

lemma parseLine_eq_None: "parseLine l = None \<longleftrightarrow> \<not> 3 \<le> fieldCount l"
  by (simp add: parseLine_def fieldCount_def length_js_split Let_def)

lemma parseLine_credentialOf: "3 \<le> fieldCount l \<Longrightarrow> parseLine l = Some (credentialOf l)"
  by (simp add: parseLine_def credentialOf_def fieldCount_def length_js_split Let_def
      totpPattern_rule)

lemma parseLoop_append: "parseLoop ls accs = accs @ parseLoop ls []"
proof (induction ls arbitrary: accs)
  case Nil
  show ?case by simp
next
  case (Cons l ls)
  show ?case
  proof (cases "parseLine l")
    case None
    then show ?thesis using Cons.IH [of accs] by simp
  next
    case (Some a)
    then show ?thesis using Cons.IH [of "accs @ [a]"] Cons.IH [of "[a]"] by simp
  qed
qed

lemma parseLoop_map_filter:
  "parseLoop ls [] = map (\<lambda>l. the (parseLine l)) (filter (\<lambda>l. 3 \<le> fieldCount l) ls)"
proof (induction ls)
  case Nil
  show ?case by simp
next
  case (Cons l ls)
  show ?case
  proof (cases "parseLine l")
    case None
    then show ?thesis using Cons.IH parseLine_eq_None [of l] by simp
  next
    case (Some a)
    then have "3 \<le> fieldCount l" using parseLine_eq_None [of l] by auto
    then show ?thesis using Some Cons.IH parseLoop_append [of ls "[a]"] by simp
  qed
qed

lemma parseAccounts_credentials:
  "parseAccounts content = map credentialOf (filter validLine (js_split (CHR 0x0A) content))"
proof -
  let ?ls = "js_split (CHR 0x0A) content"
  have keep: "filter (\<lambda>l. 3 \<le> fieldCount l) (filter (\<lambda>l. js_trim l \<noteq> []) ?ls) =
      filter validLine ?ls"
    by (simp add: js_trim_eq_Nil validLine_def cong: filter_cong)
  have "parseAccounts content = map (\<lambda>l. the (parseLine l)) (filter validLine ?ls)"
    unfolding parseAccounts_def parseLoop_map_filter keep ..
  also have "\<dots> = map credentialOf (filter validLine ?ls)"
    by (rule map_cong) (simp_all add: validLine_def parseLine_credentialOf)
  finally show ?thesis .
qed

lemma exampleAccountsFile_parsed:
  "parseAccounts exampleAccountsFile =
     [\<lparr>email = ''user1@gmail.com'', password = ''password123'',
        twoStepCode = ''QEJA633DACRGZM25AD6PHHHYB3MWHACW'', isTotp = True\<rparr>,
      \<lparr>email = ''user2@gmail.com'', password = ''password456'',
        twoStepCode = ''u5pg omhv bx23 stji 7wrw jesx l4ja lfz7'', isTotp = False\<rparr>]"
  by code_simp

text \<open>
  Claim C4. For every text of the account file, \<open>parseAccounts\<close> yields exactly one
  credential per valid line (a line that is not blank and has at least three
  tab-separated fields), in the order of the lines, and the credential of a valid line is
  classified as a rotating-code (TOTP) secret if and only if the line's third field, with
  all white space removed, consists of at least 16 upper-case letters and digits.
\<close>

theorem parseAccounts_valid_lines:
  "length (parseAccounts content) = length (filter validLine (js_split (CHR 0x0A) content)) \<and>
   map isTotp (parseAccounts content) =
     map (\<lambda>l. rotatingCodeRule (thirdField l)) (filter validLine (js_split (CHR 0x0A) content))"
  by (simp add: parseAccounts_credentials credentialOf_def thirdField_def Let_def)

theorem parseAccounts_valid_lines_witness:
  "length (filter validLine (js_split (CHR 0x0A) exampleAccountsFile)) = 2 \<and>
   length (parseAccounts exampleAccountsFile) = 2 \<and>
   map isTotp (parseAccounts exampleAccountsFile) = [True, False]"
proof -
  have "length (filter validLine (js_split (CHR 0x0A) exampleAccountsFile)) = 2"
    by code_simp
  moreover have
    "map (\<lambda>l. rotatingCodeRule (thirdField l))
       (filter validLine (js_split (CHR 0x0A) exampleAccountsFile)) = [True, False]"
    by code_simp
  ultimately show ?thesis
    using parseAccounts_valid_lines [of exampleAccountsFile] by simp
qed

section \<open>The account store\<close>

lemma getNextAccount_first_unused:
  "find (\<lambda>a. email a \<notin> set (usedAccounts am)) (accounts am) = Some a \<Longrightarrow>
   getNextAccount am = (Some a, am)"
  by (simp add: getNextAccount_def)

lemma find_None_allMarkedUsed:
  "find (\<lambda>a. email a \<notin> set (usedAccounts am)) (accounts am) = None \<longleftrightarrow> allMarkedUsed am"
  by (auto simp: find_None_iff allMarkedUsed_def list_all_iff)

lemma allMarkedUsed_size:
  assumes "storeInvariant am" and "allMarkedUsed am"
  shows "length (usedAccounts am) = length (accounts am)"
proof -
  have "set (map email (accounts am)) \<subseteq> set (usedAccounts am)"
    using assms(2) by (auto simp: allMarkedUsed_def list_all_iff)
  then have "set (usedAccounts am) = set (map email (accounts am))"
    using assms(1) by (auto simp: storeInvariant_def)
  then have "card (set (usedAccounts am)) = card (set (map email (accounts am)))"
    by simp
  then show ?thesis
    using assms(1) by (simp add: storeInvariant_def distinct_card del: set_map)
qed

lemma getNextAccount_new_cycle:
  assumes "storeInvariant am" and "allMarkedUsed am"
  shows "getNextAccount am =
           (fst (getNextAccount (am\<lparr>usedAccounts := []\<rparr>)), am\<lparr>usedAccounts := []\<rparr>)"
proof -
  have none: "find (\<lambda>a. email a \<notin> set (usedAccounts am)) (accounts am) = None"
    using assms(2) by (simp add: find_None_allMarkedUsed)
  have size: "length (usedAccounts am) = length (accounts am)"
    using assms by (rule allMarkedUsed_size)
  have "getNextAccount am =
      ((case accounts am of [] \<Rightarrow> None | a # _ \<Rightarrow> Some a), am\<lparr>usedAccounts := []\<rparr>)"
    by (simp add: getNextAccount_def none size)
  moreover have "fst (getNextAccount (am\<lparr>usedAccounts := []\<rparr>)) =
      (case accounts am of [] \<Rightarrow> None | a # _ \<Rightarrow> Some a)"
    by (cases "accounts am") (simp_all add: getNextAccount_def)
  ultimately show ?thesis by simp
qed

lemma getNextAccount_none_only_if_empty:
  assumes "storeInvariant am" and "fst (getNextAccount am) = None"
  shows "accounts am = []"
proof (cases "find (\<lambda>a. email a \<notin> set (usedAccounts am)) (accounts am)")
  case (Some a)
  then show ?thesis using assms(2) by (simp add: getNextAccount_def)
next
  case None
  then have "allMarkedUsed am" by (simp add: find_None_allMarkedUsed)
  then have "length (usedAccounts am) = length (accounts am)"
    using assms(1) by (simp add: allMarkedUsed_size)
  then have "fst (getNextAccount am) = (case accounts am of [] \<Rightarrow> None | a # _ \<Rightarrow> Some a)"
    by (simp add: getNextAccount_def None)
  then show ?thesis
    using assms(2) by (cases "accounts am") simp_all
qed

text \<open>
  On a well-formed store the cycle works as described: a call returns the first account
  not yet marked used; once all are marked, the next call clears the used-set and returns
  what the first call on the freshly loaded store returned; and only an empty store gives
  \<open>None\<close>. The three lemmas above say so. The well-formedness is needed: with the same
  identifier on two lines of the account file the store gets stuck.
\<close>

text \<open>
  Claim C3, at a store loaded from a file that lists the same account twice. The first
  call returns that account; after it is marked used, every account of the store is
  marked used, but the used-set has one element and the store two accounts, so the next
  call neither clears the used-set nor returns an account: it returns \<open>None\<close> on a
  store that is not empty, and leaves the store as it is, so every later call does too.
\<close>

theorem getNextAccount_duplicate_identifier_stuck:
  "(let am0 = \<lparr>accounts = parseAccounts duplicateAccountsFile, usedAccounts = []\<rparr>;
        am2 = markAccountAsUsed ''a@x.com'' (snd (getNextAccount am0))
    in map email (accounts am0) = [''a@x.com'', ''a@x.com''] \<and>
       map_option email (fst (getNextAccount am0)) = Some ''a@x.com'' \<and>
       allMarkedUsed am2 \<and>
       getNextAccount am2 = (None, am2))"
  by code_simp

section \<open>Enqueueing tasks\<close>

lemma find_first_unused:
  assumes d: "distinct (map email accs)" and p: "p < length accs"
  shows "find (\<lambda>a. email a \<notin> set (map email (take p accs))) accs = Some (accs ! p)"
proof -
  have "\<exists>i<length accs. email (accs ! i) \<notin> set (map email (take p accs)) \<and> accs ! p = accs ! i \<and>
      (\<forall>j<i. \<not> email (accs ! j) \<notin> set (map email (take p accs)))"
  proof (intro exI [of _ p] conjI allI impI)
    show "p < length accs" by (rule p)
    show "email (accs ! p) \<notin> set (map email (take p accs))"
    proof
      assume "email (accs ! p) \<in> set (map email (take p accs))"
      then obtain j where "j < length (map email (take p accs))"
          and "map email (take p accs) ! j = email (accs ! p)"
        by (metis in_set_conv_nth)
      then have j: "j < p" "email (accs ! j) = email (accs ! p)"
        using p by simp_all
      then have "map email accs ! j = map email accs ! p" using p by simp
      then have "j = p" using nth_eq_iff_index_eq [OF d, of j p] j(1) p by simp
      then show False using j(1) by simp
    qed
    show "accs ! p = accs ! p" ..
    fix j assume "j < p"
    then have "accs ! j \<in> set (take p accs)"
      using p by (auto simp: in_set_conv_nth intro!: exI [of _ j])
    then show "\<not> email (accs ! j) \<notin> set (map email (take p accs))" by simp
  qed
  then show ?thesis by (simp add: find_Some_iff)
qed

lemma getNextAccount_round_robin:
  assumes d: "distinct (map email (accounts am))" and ne: "accounts am \<noteq> []"
    and u: "usedAccounts am = map email (take p (accounts am))" and p: "p \<le> length (accounts am)"
  shows "\<exists>am'. getNextAccount am = (Some (accounts am ! (p mod length (accounts am))), am') \<and>
           accounts am' = accounts am \<and>
           usedAccounts (markAccountAsUsed (email (accounts am ! (p mod length (accounts am)))) am') =
             map email (take (Suc (p mod length (accounts am))) (accounts am)) \<and>
           accounts (markAccountAsUsed (email (accounts am ! (p mod length (accounts am)))) am') = accounts am"
proof (cases "p < length (accounts am)")
  case True
  have f: "find (\<lambda>a. email a \<notin> set (usedAccounts am)) (accounts am) = Some (accounts am ! p)"
    unfolding u using d True by (rule find_first_unused)
  have notin: "email (accounts am ! p) \<notin> set (map email (take p (accounts am)))"
    using f [unfolded u] by (auto simp: find_Some_iff)
  show ?thesis
    using True f notin
    by (simp add: getNextAccount_def markAccountAsUsed_def set_add_def u take_Suc_conv_app_nth)
next
  case False
  then have pe: "p = length (accounts am)" using p by simp
  then have all: "usedAccounts am = map email (accounts am)" using u by simp
  have none: "find (\<lambda>a. email a \<notin> set (usedAccounts am)) (accounts am) = None"
    by (simp add: find_None_iff all)
  obtain a as where as: "accounts am = a # as" using ne by (cases "accounts am") auto
  show ?thesis
    using none by (simp add: getNextAccount_def all pe markAccountAsUsed_def set_add_def as)
qed

lemma addTasksLoop_round_robin:
  assumes "distinct (map email (accounts am))" and "accounts am \<noteq> []"
    and "usedAccounts am = map email (take p (accounts am))" and "p \<le> length (accounts am)"
  shows "\<exists>am'. addTasksLoop i k (ts, am, out) =
           (ts @ map (\<lambda>m. mkTask (i + m) (accounts am ! ((p + m) mod length (accounts am)))) [0..<k],
            am', out)"
  using assms
proof (induction k arbitrary: i ts am p)
  case 0
  show ?case by simp
next
  case (Suc k)
  let ?K = "length (accounts am)"
  let ?a = "accounts am ! (p mod ?K)"
  from getNextAccount_round_robin [OF Suc.prems]
  obtain am1 where g: "getNextAccount am = (Some ?a, am1)"
    and u1: "usedAccounts (markAccountAsUsed (email ?a) am1) = map email (take (Suc (p mod ?K)) (accounts am))"
    and a1: "accounts (markAccountAsUsed (email ?a) am1) = accounts am"
    by blast
  let ?am2 = "markAccountAsUsed (email ?a) am1"
  have K: "0 < ?K" using Suc.prems(2) by simp
  have p': "Suc (p mod ?K) \<le> length (accounts ?am2)"
    using K a1 by (simp add: Suc_leI)
  from Suc.IH [of ?am2 "Suc (p mod ?K)" "Suc i" "ts @ [mkTask i ?a]"] Suc.prems(1,2) u1 a1 p'
  obtain am3 where r: "addTasksLoop (Suc i) k (ts @ [mkTask i ?a], ?am2, out) =
      ((ts @ [mkTask i ?a]) @
         map (\<lambda>m. mkTask (Suc i + m) (accounts am ! ((Suc (p mod ?K) + m) mod ?K))) [0..<k],
       am3, out)"
    by auto
  have idx: "Suc (p mod ?K + m) mod ?K = Suc (p + m) mod ?K" for m
    by (metis add_Suc mod_Suc_eq mod_add_left_eq)
  have "map (\<lambda>m. mkTask (i + m) (accounts am ! ((p + m) mod ?K))) [0..<Suc k] =
      mkTask i ?a # map (\<lambda>m. mkTask (Suc i + m) (accounts am ! ((Suc (p mod ?K) + m) mod ?K))) [0..<k]"
    by (simp add: upt_conv_Cons map_Suc_upt [symmetric] idx del: upt_Suc)
  then show ?case
    using g r by (simp add: mkTask_def)
qed

text \<open>
  Claim C2, as stated, at a store of two credentials and three requested tasks: three
  tasks are built, not two, the third with the first credential again, and the console
  shows neither a skipped task nor a shortfall.
\<close>

theorem addTasks_shortfall_counterexample:
  "length (parseAccounts twoAccountsFile) = 2 \<and>
   addTasks 3 (Some twoAccountsFile) (newTaskPool 2, newAccountManager) =
     Inr ((newTaskPool 2)
            \<lparr>tasks :=
               [mkTask 1 \<lparr>email = ''a@x.com'', password = ''pw1'', twoStepCode = ''k1'', isTotp = False\<rparr>,
                mkTask 2 \<lparr>email = ''b@x.com'', password = ''pw2'', twoStepCode = ''k2'', isTotp = False\<rparr>,
                mkTask 3 \<lparr>email = ''a@x.com'', password = ''pw1'', twoStepCode = ''k1'', isTotp = False\<rparr>],
             logFile := [BatchStart 3]\<rparr>,
          \<lparr>accounts = parseAccounts twoAccountsFile, usedAccounts = [''a@x.com'']\<rparr>,
          [TasksAdded 3])"
  by code_simp

text \<open>
  Claim C2, amended. For every number \<open>n\<close> of requested tasks and every account file
  with at least one credential and pairwise different identifiers, \<open>addTasks\<close> on a new
  pool and a freshly created account manager returns with exactly \<open>n\<close> tasks, also when
  the file has fewer than \<open>n\<close> credentials: the store starts a new cycle, and task
  number \<open>i\<close> gets credential number \<open>(i - 1) mod K\<close> of the \<open>K\<close> credentials in
  file order. The console shows the number of tasks and no shortfall.
\<close>

theorem addTasks_wraps_around:
  assumes "distinct (map email (parseAccounts content))" and "parseAccounts content \<noteq> []"
  shows "\<exists>am'. addTasks n (Some content) (newTaskPool c, newAccountManager) =
           Inr ((newTaskPool c)
                  \<lparr>tasks := map (\<lambda>m. mkTask (Suc m)
                              (parseAccounts content ! (m mod length (parseAccounts content))))
                            [0..<n],
                   logFile := [BatchStart n]\<rparr>,
                am', [TasksAdded n])"
proof -
  let ?am = "newAccountManager\<lparr>accounts := parseAccounts content\<rparr>"
  have "\<exists>am'. addTasksLoop 1 n ([], ?am, []) =
      ([] @ map (\<lambda>m. mkTask (1 + m) (accounts ?am ! ((0 + m) mod length (accounts ?am)))) [0..<n],
       am', [])"
    by (rule addTasksLoop_round_robin) (use assms in \<open>simp_all add: newAccountManager_def\<close>)
  then obtain am' where "addTasksLoop 1 n ([], ?am, []) =
      (map (\<lambda>m. mkTask (Suc m) (parseAccounts content ! (m mod length (parseAccounts content))))
         [0..<n], am', [])"
    by auto
  then show ?thesis
    using assms(2)
    by (simp add: addTasks_def loadAccounts_def getTotalAccountCount_def newTaskPool_def)
qed

theorem addTasks_wraps_around_witness:
  "distinct (map email (parseAccounts twoAccountsFile)) \<and> parseAccounts twoAccountsFile \<noteq> [] \<and>
   (\<exists>am'. addTasks 3 (Some twoAccountsFile) (newTaskPool 2, newAccountManager) =
      Inr ((newTaskPool 2)
             \<lparr>tasks := map (\<lambda>m. mkTask (Suc m)
                         (parseAccounts twoAccountsFile ! (m mod length (parseAccounts twoAccountsFile))))
                       [0..<3],
              logFile := [BatchStart 3]\<rparr>,
           am', [TasksAdded 3]))"
proof -
  have d: "distinct (map email (parseAccounts twoAccountsFile))"
    by code_simp
  have ne: "parseAccounts twoAccountsFile \<noteq> []"
    by code_simp
  show ?thesis
    using d ne addTasks_wraps_around [OF d ne, of 3 2] by simp
qed

section \<open>The login flow: the stall counter\<close>

lemma dispatch_Next_state: "dispatch acc opt st url = Next st' acts \<Longrightarrow> st' = st"
  by (simp add: dispatch_def split: if_splits)

lemma loginStep_driverInv:
  assumes "driverInv st" and "loginStep acc opt st full = Next st' acts"
  shows "driverInv st'"
proof (cases "stripQuery full = lastUrl st \<and> retryCount st \<noteq> - 1")
  case True
  then have "stalled st (lastUrl st) = Next st' acts"
    using assms(2) by (simp add: loginStep_def Let_def)
  then show ?thesis
    using assms(1) by (auto simp: stalled_def driverInv_def split: if_splits)
next
  case False
  then have "dispatch acc opt (st\<lparr>retryCount := 0, lastUrl := stripQuery full\<rparr>) (stripQuery full) =
      Next st' acts"
    using assms(2) by (auto simp: loginStep_def Let_def)
  then have "st' = st\<lparr>retryCount := 0, lastUrl := stripQuery full\<rparr>"
    by (rule dispatch_Next_state)
  then show ?thesis by (simp add: driverInv_def)
qed

lemma loginPolls_driverInv:
  "driverInv st \<Longrightarrow> loginPolls acc st polls = Next st' acts \<Longrightarrow> driverInv st'"
proof (induction polls arbitrary: st)
  case Nil
  then show ?case by simp
next
  case (Cons p polls)
  obtain full opt where p: "p = (full, opt)" by (cases p)
  from Cons.prems(2) obtain st1 acts1 where s: "loginStep acc opt st full = Next st1 acts1"
    and r: "loginPolls acc st1 polls = Next st' acts"
    by (auto simp: p split: step_result.splits)
  from Cons.prems(1) s have "driverInv st1" by (rule loginStep_driverInv)
  then show ?case using r by (rule Cons.IH)
qed

lemma driverInv_initial: "driverInv initialDriverState"
  by (simp add: driverInv_def initialDriverState_def noNeedCount_def noNeedCountUrlMatch_def)

lemma reachable_driverInv:
  "loginPolls acc initialDriverState polls = Next st acts \<Longrightarrow> driverInv st"
  using driverInv_initial by (rule loginPolls_driverInv)

lemma stalled_polls:
  assumes "stripQuery full = lastUrl st" and "\<not> noNeedCount (lastUrl st)"
    and "\<not> js_includes (lastUrl st) ''signin/identifier''"
    and "0 \<le> retryCount st" and "retryCount st + int k \<le> 16"
  shows "loginPolls acc st (replicate k (full, opt) @ rest) =
         loginPolls acc (st\<lparr>retryCount := retryCount st + int k\<rparr>) rest"
  using assms
proof (induction k arbitrary: st)
  case 0
  show ?case by simp
next
  case (Suc k)
  have step: "loginStep acc opt st full = Next (st\<lparr>retryCount := retryCount st + 1\<rparr>) [Sleep 1000]"
    using Suc.prems by (simp add: loginStep_def stalled_def Let_def)
  have "loginPolls acc (st\<lparr>retryCount := retryCount st + 1\<rparr>) (replicate k (full, opt) @ rest) =
      loginPolls acc
        (st\<lparr>retryCount := retryCount st + 1, retryCount := retryCount st + 1 + int k\<rparr>) rest"
    using Suc.prems Suc.IH [of "st\<lparr>retryCount := retryCount st + 1\<rparr>"] by simp
  then show ?case
    using step by (simp add: add.assoc)
qed

lemma flowState_pwd:
  "flowState url = Some ''challenge/pwd'' \<Longrightarrow>
   js_includes url ''challenge/pwd'' \<and> \<not> js_includes url ''signin/identifier''"
  by (simp add: flowState_def rulePatterns_def split: if_splits)

lemma js_includes_nonempty: "js_includes url (c # p) \<Longrightarrow> url \<noteq> []"
  by (cases url) auto

lemma frozen_password_url:
  assumes "flowState (stripQuery full) = Some ''challenge/pwd''"
    and "onLoginDomain (stripQuery full)" and "\<not> noNeedCount (stripQuery full)"
  shows "loginPolls acc initialDriverState (replicate 17 (full, opt)) =
           Next \<lparr>lastUrl = stripQuery full, retryCount = 16\<rparr> []"
    and "loginPolls acc initialDriverState (replicate 18 (full, opt)) = Throw InvalidCredentials"
proof -
  let ?u = "stripQuery full"
  let ?st1 = "\<lparr>lastUrl = ?u, retryCount = 0\<rparr>"
  have pw: "js_includes ?u ''challenge/pwd''" and ni: "\<not> js_includes ?u ''signin/identifier''"
    using flowState_pwd [OF assms(1)] by simp_all
  have ne: "?u \<noteq> []" using pw by (rule js_includes_nonempty)
  have first: "loginStep acc opt initialDriverState full =
      Next ?st1 [Focus ''input[type=password]'', Sleep 500, KeyboardType (password acc),
                    Click ''#passwordNext'']"
    using ne pw ni assms(2)
    by (auto simp: loginStep_def initialDriverState_def Let_def dispatch_def onLoginDomain_def)
  have run: "loginPolls acc ?st1 (replicate 16 (full, opt) @ rest) =
      loginPolls acc (?st1\<lparr>retryCount := 16\<rparr>) rest" for rest
    using stalled_polls [of full ?st1 16 acc opt rest] assms(3) ni by simp
  have r17: "replicate 17 (full, opt) = (full, opt) # replicate 16 (full, opt) @ []"
    by (simp add: numeral_eq_Suc)
  have r18: "replicate 18 (full, opt) = (full, opt) # replicate 16 (full, opt) @ [(full, opt)]"
    by (simp add: numeral_eq_Suc replicate_append_same)
  show "loginPolls acc initialDriverState (replicate 17 (full, opt)) =
           Next \<lparr>lastUrl = stripQuery full, retryCount = 16\<rparr> []"
    unfolding r17 using first run [of "[]"] by simp
  show "loginPolls acc initialDriverState (replicate 18 (full, opt)) = Throw InvalidCredentials"
    unfolding r18 using first run [of "[(full, opt)]"] pw
    by (simp add: loginStep_def stalled_def Let_def)
qed

text \<open>
  Claim C5. Whenever an iteration of the driver's loop finds the URL unchanged with the
  stall counter above 15, the flow fails: with the invalid-credentials error if the URL
  includes \<open>challenge/pwd\<close>, else with the invalid-second-factor error if it includes
  \<open>challenge/totp\<close>, otherwise with the too-many-retries error. Below the ceiling (and
  apart from the reload of the identifier page) an unchanged URL is answered by a sleep of
  one second, and the counter goes up by one exactly when the URL is outside the patterns
  exempt from counting. So a URL frozen in the password state, on the login domain and
  outside the exempt patterns, is still polled after 17 reads, with the counter at 16,
  and fails with the invalid-credentials error at the 18th.
\<close>

theorem stall_error_mapping:
  "(stripQuery full = lastUrl st \<and> retryCount st > 15 \<longrightarrow>
      loginStep acc opt st full =
        Throw (if js_includes (lastUrl st) ''challenge/pwd'' then InvalidCredentials
               else if js_includes (lastUrl st) ''challenge/totp'' then InvalidSecondFactor
               else TooManyRetries)) \<and>
   (stripQuery full = lastUrl st \<and> retryCount st \<noteq> - 1 \<and> retryCount st \<le> 15 \<and>
    \<not> (retryCount st > 5 \<and> js_includes (lastUrl st) ''signin/identifier'') \<longrightarrow>
      loginStep acc opt st full =
        Next (if noNeedCount (lastUrl st) then st else st\<lparr>retryCount := retryCount st + 1\<rparr>)
          [Sleep 1000]) \<and>
   (flowState (stripQuery full) = Some ''challenge/pwd'' \<and> onLoginDomain (stripQuery full) \<and>
    \<not> noNeedCount (stripQuery full) \<longrightarrow>
      loginPolls acc initialDriverState (replicate 17 (full, opt)) =
        Next \<lparr>lastUrl = stripQuery full, retryCount = 16\<rparr> [] \<and>
      loginPolls acc initialDriverState (replicate 18 (full, opt)) = Throw InvalidCredentials)"
proof (intro conjI impI)
  assume "stripQuery full = lastUrl st \<and> retryCount st > 15"
  then show "loginStep acc opt st full =
        Throw (if js_includes (lastUrl st) ''challenge/pwd'' then InvalidCredentials
               else if js_includes (lastUrl st) ''challenge/totp'' then InvalidSecondFactor
               else TooManyRetries)"
    by (simp add: loginStep_def stalled_def Let_def)
next
  assume "stripQuery full = lastUrl st \<and> retryCount st \<noteq> - 1 \<and> retryCount st \<le> 15 \<and>
    \<not> (retryCount st > 5 \<and> js_includes (lastUrl st) ''signin/identifier'')"
  then show "loginStep acc opt st full =
        Next (if noNeedCount (lastUrl st) then st else st\<lparr>retryCount := retryCount st + 1\<rparr>)
          [Sleep 1000]"
    by (auto simp: loginStep_def stalled_def Let_def)
next
  assume a: "flowState (stripQuery full) = Some ''challenge/pwd'' \<and>
    onLoginDomain (stripQuery full) \<and> \<not> noNeedCount (stripQuery full)"
  then show "loginPolls acc initialDriverState (replicate 17 (full, opt)) =
        Next \<lparr>lastUrl = stripQuery full, retryCount = 16\<rparr> []"
    by (intro frozen_password_url) simp_all
  from a show "loginPolls acc initialDriverState (replicate 18 (full, opt)) =
      Throw InvalidCredentials"
    by (intro frozen_password_url) simp_all
qed

theorem stall_error_mapping_witness:
  "loginStep exampleAccount False \<lparr>lastUrl = passwordUrl, retryCount = 16\<rparr> (passwordUrl @ ''?hl=en'') =
     Throw InvalidCredentials \<and>
   loginStep exampleAccount False \<lparr>lastUrl = totpUrl, retryCount = 16\<rparr> totpUrl =
     Throw InvalidSecondFactor \<and>
   loginStep exampleAccount False \<lparr>lastUrl = consentUrl, retryCount = 16\<rparr> consentUrl =
     Throw TooManyRetries \<and>
   loginStep exampleAccount False \<lparr>lastUrl = totpUrl, retryCount = 3\<rparr> totpUrl =
     Next \<lparr>lastUrl = totpUrl, retryCount = 4\<rparr> [Sleep 1000] \<and>
   loginPolls exampleAccount initialDriverState (replicate 17 (passwordUrl @ ''?hl=en'', False)) =
     Next \<lparr>lastUrl = passwordUrl, retryCount = 16\<rparr> [] \<and>
   loginPolls exampleAccount initialDriverState (replicate 18 (passwordUrl @ ''?hl=en'', False)) =
     Throw InvalidCredentials"
proof -
  have q: "stripQuery (passwordUrl @ ''?hl=en'') = passwordUrl"
    and qt: "stripQuery totpUrl = totpUrl" and qc: "stripQuery consentUrl = consentUrl"
    by code_simp+
  have p: "js_includes passwordUrl ''challenge/pwd''"
    and t: "\<not> js_includes totpUrl ''challenge/pwd''" "js_includes totpUrl ''challenge/totp''"
    and c: "\<not> js_includes consentUrl ''challenge/pwd''" "\<not> js_includes consentUrl ''challenge/totp''"
    by code_simp+
  have n: "\<not> noNeedCount totpUrl" "\<not> js_includes totpUrl ''signin/identifier''"
    by code_simp+
  have f: "flowState passwordUrl = Some ''challenge/pwd''" "onLoginDomain passwordUrl"
    "\<not> noNeedCount passwordUrl"
    by code_simp+
  note pw = stall_error_mapping
    [of "passwordUrl @ ''?hl=en''" "\<lparr>lastUrl = passwordUrl, retryCount = 16\<rparr>" exampleAccount False]
  note tp = stall_error_mapping
    [of totpUrl "\<lparr>lastUrl = totpUrl, retryCount = 16\<rparr>" exampleAccount False]
  note cs = stall_error_mapping
    [of consentUrl "\<lparr>lastUrl = consentUrl, retryCount = 16\<rparr>" exampleAccount False]
  note lo = stall_error_mapping
    [of totpUrl "\<lparr>lastUrl = totpUrl, retryCount = 3\<rparr>" exampleAccount False]
  show ?thesis
    using pw tp cs lo by (simp add: q qt qc p t c n f)
qed

section \<open>The login flow: the identifier page\<close>

lemma dispatch_identifier_no_throw:
  "js_includes url ''signin/identifier'' \<Longrightarrow> dispatch acc opt st url \<noteq> Throw e"
  by (simp add: dispatch_def)

text \<open>
  Claim C8. When an iteration finds the URL unchanged on the identifier page with the
  stall counter above 5 (and not above the ceiling of 15), the driver reloads the page,
  does nothing else in that iteration, and sets the counter to \<open>-1\<close>; the next
  iteration then treats whatever URL it reads as new and starts counting from \<open>0\<close>.
  Hence, in every state that the loop reaches from its start, the counter is at most 6
  while the last URL is the identifier page, and an iteration that reads this URL again
  does not fail.
\<close>

theorem identifier_reload:
  "(stripQuery full = lastUrl st \<and> 5 < retryCount st \<and> retryCount st \<le> 15 \<and>
    js_includes (lastUrl st) ''signin/identifier'' \<longrightarrow>
      loginStep acc opt st full = Next (st\<lparr>retryCount := - 1\<rparr>) [Reload] \<and>
      loginStep acc opt' (st\<lparr>retryCount := - 1\<rparr>) full' =
        dispatch acc opt' \<lparr>lastUrl = stripQuery full', retryCount = 0\<rparr> (stripQuery full')) \<and>
   (loginPolls acc initialDriverState polls = Next st acts \<and>
    js_includes (lastUrl st) ''signin/identifier'' \<and> stripQuery full = lastUrl st \<longrightarrow>
      retryCount st \<le> 6 \<and> (\<forall>e. loginStep acc opt st full \<noteq> Throw e))"
proof (intro conjI impI allI)
  assume a: "stripQuery full = lastUrl st \<and> 5 < retryCount st \<and> retryCount st \<le> 15 \<and>
    js_includes (lastUrl st) ''signin/identifier''"
  then show "loginStep acc opt st full = Next (st\<lparr>retryCount := - 1\<rparr>) [Reload]"
    by (simp add: loginStep_def stalled_def Let_def)
  show "loginStep acc opt' (st\<lparr>retryCount := - 1\<rparr>) full' =
      dispatch acc opt' \<lparr>lastUrl = stripQuery full', retryCount = 0\<rparr> (stripQuery full')"
    by (cases st) (simp add: loginStep_def Let_def)
next
  assume b: "loginPolls acc initialDriverState polls = Next st acts \<and>
    js_includes (lastUrl st) ''signin/identifier'' \<and> stripQuery full = lastUrl st"
  then have "driverInv st" by (intro reachable_driverInv) auto
  then show le: "retryCount st \<le> 6"
    using b by (simp add: driverInv_def)
  fix e
  show "loginStep acc opt st full \<noteq> Throw e"
  proof (cases "retryCount st = - 1")
    case True
    then show ?thesis
      using b by (simp add: loginStep_def Let_def dispatch_identifier_no_throw)
  next
    case False
    then show ?thesis
      using b le by (simp add: loginStep_def Let_def stalled_def)
  qed
qed

theorem identifier_reload_witness:
  "loginStep exampleAccount False \<lparr>lastUrl = identifierUrl, retryCount = 6\<rparr> identifierUrl =
     Next \<lparr>lastUrl = identifierUrl, retryCount = - 1\<rparr> [Reload] \<and>
   loginStep exampleAccount False \<lparr>lastUrl = identifierUrl, retryCount = - 1\<rparr> identifierUrl =
     Next \<lparr>lastUrl = identifierUrl, retryCount = 0\<rparr>
       [Click ''input[type=email]'', Sleep 500, KeyboardType ''user1@gmail.com'',
        Click ''#identifierNext''] \<and>
   loginPolls exampleAccount initialDriverState (replicate 7 (identifierUrl, False)) =
     Next \<lparr>lastUrl = identifierUrl, retryCount = 6\<rparr> [] \<and>
   (\<forall>e. loginStep exampleAccount False \<lparr>lastUrl = identifierUrl, retryCount = 6\<rparr> identifierUrl \<noteq>
     Throw e)"
proof -
  have q: "stripQuery identifierUrl = identifierUrl"
    and i: "js_includes identifierUrl ''signin/identifier''"
    by code_simp+
  have d: "dispatch exampleAccount False \<lparr>lastUrl = identifierUrl, retryCount = 0\<rparr> identifierUrl =
     Next \<lparr>lastUrl = identifierUrl, retryCount = 0\<rparr>
       [Click ''input[type=email]'', Sleep 500, KeyboardType ''user1@gmail.com'',
        Click ''#identifierNext'']"
    by code_simp
  have r: "loginPolls exampleAccount initialDriverState (replicate 7 (identifierUrl, False)) =
     Next \<lparr>lastUrl = identifierUrl, retryCount = 6\<rparr> []"
    by code_simp
  note t = identifier_reload
    [where full = identifierUrl and st = "\<lparr>lastUrl = identifierUrl, retryCount = 6\<rparr>"
       and acc = exampleAccount and opt = False and opt' = False and full' = identifierUrl
       and polls = "replicate 7 (identifierUrl, False)" and acts = "[]"]
  show ?thesis
    using t by (simp add: q i d r)
qed

section \<open>The login flow: waiting for a human\<close>
















section \<open>The pool: what one step changes\<close>

lemma awaiting_Some:
  "awaiting s i = Some (t, q) \<Longrightarrow> (t, q) \<in> set (executing s) \<and> task_id t = i"
  by (auto simp: awaiting_def find_Some_iff in_set_conv_nth)

lemma awaiting_inFlight: "awaiting s i = Some (t, q) \<Longrightarrow> task_id t \<in> set (inFlightIds s)"
  using awaiting_Some [of s i t q] by (force simp: inFlightIds_def)

lemma ids_setExecuting:
  "map (\<lambda>(t, q). task_id t) (setExecuting t' ph ex) = map (\<lambda>(t, q). task_id t) ex"
  by (induction ex) (auto simp: setExecuting_def)

lemma ids_filter_executing:
  "map (\<lambda>(t, q). task_id t) (filter (\<lambda>(u, q). task_id u \<noteq> i) ex) =
   set_delete (map (\<lambda>(t, q). task_id t) ex) i"
  by (induction ex) (auto simp: set_delete_def)

lemma set_set_delete: "set (set_delete xs v) = set xs - {v}"
  by (auto simp: set_delete_def)

lemma distinct_set_delete: "distinct xs \<Longrightarrow> distinct (set_delete xs v)"
  by (simp add: set_delete_def)

lemma length_set_delete: "length (set_delete xs v) \<le> length xs"
  by (simp add: set_delete_def)

lemma start_ids:
  "pendingIds (executeTask_start t (s\<lparr>tasks := rest\<rparr>)) = map task_id rest"
  "inFlightIds (executeTask_start t (s\<lparr>tasks := rest\<rparr>)) = inFlightIds s @ [task_id t]"
  "returnedIds (executeTask_start t (s\<lparr>tasks := rest\<rparr>)) = returnedIds s"
  "runningTasks (executeTask_start t (s\<lparr>tasks := rest\<rparr>)) = set_add (runningTasks s) (task_id t)"
  "executed (executeTask_start t (s\<lparr>tasks := rest\<rparr>)) = executed s @ [task_id t]"
  "poolSize (executeTask_start t (s\<lparr>tasks := rest\<rparr>)) = poolSize s"
  by (simp_all add: executeTask_start_def pendingIds_def inFlightIds_def returnedIds_def)

lemma settled_ids:
  "pendingIds (executeTask_settled t outcome s) = pendingIds s"
  "inFlightIds (executeTask_settled t outcome s) = inFlightIds s"
  "returnedIds (executeTask_settled t outcome s) = returnedIds s"
  "runningTasks (executeTask_settled t outcome s) = runningTasks s"
  "executed (executeTask_settled t outcome s) = executed s"
  "poolSize (executeTask_settled t outcome s) = poolSize s"
  by (simp_all add: executeTask_settled_def pendingIds_def inFlightIds_def returnedIds_def Let_def
      ids_setExecuting split: option.splits)

lemma logged_ids:
  "pendingIds (executeTask_logged t s) = pendingIds s"
  "inFlightIds (executeTask_logged t s) = inFlightIds s"
  "returnedIds (executeTask_logged t s) = returnedIds s"
  "runningTasks (executeTask_logged t s) = runningTasks s"
  "executed (executeTask_logged t s) = executed s"
  "poolSize (executeTask_logged t s) = poolSize s"
  by (simp_all add: executeTask_logged_def pendingIds_def inFlightIds_def returnedIds_def
      ids_setExecuting split: option.splits)

lemma finally_ids:
  "pendingIds (executeTask_finally t s) = pendingIds s"
  "inFlightIds (executeTask_finally t s) = set_delete (inFlightIds s) (task_id t)"
  "returnedIds (executeTask_finally t s) = returnedIds s @ [task_id t]"
  "runningTasks (executeTask_finally t s) = set_delete (runningTasks s) (task_id t)"
  "executed (executeTask_finally t s) = executed s"
  "poolSize (executeTask_finally t s) = poolSize s"
  by (simp_all add: executeTask_finally_def pendingIds_def inFlightIds_def returnedIds_def
      ids_filter_executing)

subsection \<open>The ids\<close>

lemma idsInv_start:
  assumes "idsInv ids s" and "tasks s = t # rest"
  shows "idsInv ids (executeTask_start t (s\<lparr>tasks := rest\<rparr>))"
proof -
  have p: "pendingIds s = task_id t # map task_id rest"
    using assms(2) by (simp add: pendingIds_def)
  from assms(1) have d: "distinct (executed s @ task_id t # map task_id rest)"
    and u: "set (executed s) = set (runningTasks s) \<union> set (returnedIds s)"
    by (auto simp: idsInv_def p)
  from d have fresh: "task_id t \<notin> set (executed s)" by auto
  then have nr: "task_id t \<notin> set (runningTasks s)" and nd: "task_id t \<notin> set (returnedIds s)"
    using u by auto
  show ?thesis
    using assms(1) nr nd by (auto simp: idsInv_def start_ids p set_add_def)
qed

lemma idsInv_settled: "idsInv ids s \<Longrightarrow> idsInv ids (executeTask_settled t outcome s)"
  by (auto simp: idsInv_def settled_ids)

lemma idsInv_logged: "idsInv ids s \<Longrightarrow> idsInv ids (executeTask_logged t s)"
  by (auto simp: idsInv_def logged_ids)

lemma idsInv_finally:
  assumes "idsInv ids s" and "awaiting s i = Some (t, q)"
  shows "idsInv ids (executeTask_finally t s)"
proof -
  from assms have inr: "task_id t \<in> set (runningTasks s)"
    using awaiting_inFlight [OF assms(2)] by (simp add: idsInv_def)
  then have nd: "task_id t \<notin> set (returnedIds s)"
    using assms(1) by (auto simp: idsInv_def)
  show ?thesis
    using assms(1) inr nd
    by (auto simp: idsInv_def finally_ids set_set_delete distinct_set_delete)
qed

lemma idsInv_event: "idsInv ids s \<Longrightarrow> idsInv ids (apply_event e s)"
  by (cases e)
    (auto simp: idsInv_settled idsInv_logged idsInv_finally split: option.splits phase.splits)

subsection \<open>The capacity\<close>

lemma capacityInv_start:
  "length (runningTasks s) < poolSize s \<Longrightarrow>
   capacityInv (executeTask_start t (s\<lparr>tasks := rest\<rparr>))"
  by (simp add: capacityInv_def start_ids set_add_def)

lemma capacityInv_event: "capacityInv s \<Longrightarrow> capacityInv (apply_event e s)"
proof (cases e)
  case (MainSettles i outcome)
  then show "capacityInv s \<Longrightarrow> ?thesis"
    by (auto simp: capacityInv_def settled_ids split: option.splits phase.splits)
next
  case (ResultLogged i)
  then show "capacityInv s \<Longrightarrow> ?thesis"
    by (auto simp: capacityInv_def logged_ids split: option.splits phase.splits)
next
  case (ExecuteTaskReturns i)
  have "length (set_delete (runningTasks s) j) \<le> poolSize s" if "capacityInv s" for j
    using that length_set_delete [of "runningTasks s" j] by (simp add: capacityInv_def)
  then show "capacityInv s \<Longrightarrow> ?thesis"
    using ExecuteTaskReturns
    by (auto simp: capacityInv_def finally_ids split: option.splits phase.splits)
qed

subsection \<open>The task in flight that an event is about\<close>

lemma executing_split:
  assumes "distinct (inFlightIds s)" and "awaiting s i = Some (t, q)" and "task_id t' = task_id t"
  shows "\<exists>xs ys. executing s = xs @ (t, q) # ys \<and>
           setExecuting t' ph (executing s) = xs @ (t', ph) # ys \<and>
           filter (\<lambda>(u, r). task_id u \<noteq> task_id t) (executing s) = xs @ ys"
proof -
  from awaiting_Some [OF assms(2)] obtain xs ys where ex: "executing s = xs @ (t, q) # ys"
    by (auto dest: split_list)
  have nx: "task_id u \<noteq> task_id t" if "(u, r) \<in> set xs" for u r
  proof
    assume "task_id u = task_id t"
    then have "task_id t \<in> set (map (\<lambda>(t, q). task_id t) xs)" using that by force
    then show False using assms(1) by (simp add: inFlightIds_def ex)
  qed
  have ny: "task_id u \<noteq> task_id t" if "(u, r) \<in> set ys" for u r
  proof
    assume "task_id u = task_id t"
    then have "task_id t \<in> set (map (\<lambda>(t, q). task_id t) ys)" using that by force
    then show False using assms(1) by (simp add: inFlightIds_def ex)
  qed
  have mx: "map (\<lambda>(u, r). if task_id u = task_id t' then (t', ph) else (u, r)) xs = xs"
    using nx assms(3) by (intro map_idI) auto
  have my: "map (\<lambda>(u, r). if task_id u = task_id t' then (t', ph) else (u, r)) ys = ys"
    using ny assms(3) by (intro map_idI) auto
  have fx: "filter (\<lambda>(u, r). task_id u \<noteq> task_id t) xs = xs"
    using nx by (intro filter_True) auto
  have fy: "filter (\<lambda>(u, r). task_id u \<noteq> task_id t) ys = ys"
    using ny by (intro filter_True) auto
  show ?thesis
    using ex mx my fx fy assms(3) by (auto simp: setExecuting_def)
qed

subsection \<open>The statuses\<close>

lemma statusInv_start:
  assumes "statusInv s" and "tasks s = t # rest"
  shows "statusInv (executeTask_start t (s\<lparr>tasks := rest\<rparr>))"
  using assms by (simp add: statusInv_def executeTask_start_def)

lemma statusInv_settled:
  assumes "statusInv s" and "distinct (inFlightIds s)" and "awaiting s i = Some (t, q)"
  shows "statusInv (executeTask_settled t outcome s)"
proof (cases "snd (main outcome)")
  case None
  from executing_split [OF assms(2,3), of "t\<lparr>status := COMPLETED\<rparr>" AwaitLog]
  obtain xs ys where "executing s = xs @ (t, q) # ys"
    and "setExecuting (t\<lparr>status := COMPLETED\<rparr>) AwaitLog (executing s) =
      xs @ (t\<lparr>status := COMPLETED\<rparr>, AwaitLog) # ys"
    by auto
  then show ?thesis
    using assms(1) None by (simp add: statusInv_def executeTask_settled_def Let_def)
next
  case (Some msg)
  from executing_split [OF assms(2,3), of "t\<lparr>error_text := Some msg, status := FAILED\<rparr>" AwaitLog]
  obtain xs ys where "executing s = xs @ (t, q) # ys"
    and "setExecuting (t\<lparr>error_text := Some msg, status := FAILED\<rparr>) AwaitLog (executing s) =
      xs @ (t\<lparr>error_text := Some msg, status := FAILED\<rparr>, AwaitLog) # ys"
    by auto
  then show ?thesis
    using assms(1) Some by (simp add: statusInv_def executeTask_settled_def Let_def)
qed

lemma statusInv_logged:
  assumes "statusInv s" and "distinct (inFlightIds s)" and "awaiting s i = Some (t, AwaitLog)"
  shows "statusInv (executeTask_logged t s)"
proof -
  from executing_split [OF assms(2,3), of t AwaitFinally]
  obtain xs ys where "executing s = xs @ (t, AwaitLog) # ys"
    and "setExecuting t AwaitFinally (executing s) = xs @ (t, AwaitFinally) # ys"
    by auto
  then show ?thesis
    using assms(1) by (simp add: statusInv_def executeTask_logged_def split: option.splits)
qed

lemma statusInv_finally:
  assumes "statusInv s" and "distinct (inFlightIds s)" and "awaiting s i = Some (t, AwaitFinally)"
  shows "statusInv (executeTask_finally t s)"
proof -
  from executing_split [OF assms(2,3), of t AwaitFinally]
  obtain xs ys where "executing s = xs @ (t, AwaitFinally) # ys"
    and "filter (\<lambda>(u, r). task_id u \<noteq> task_id t) (executing s) = xs @ ys"
    by auto
  then show ?thesis
    using assms(1) by (simp add: statusInv_def executeTask_finally_def)
qed

lemma statusInv_event:
  assumes "statusInv s" and "distinct (inFlightIds s)"
  shows "statusInv (apply_event e s)"
  using assms
  by (cases e)
    (auto simp: statusInv_settled statusInv_logged statusInv_finally
      split: option.splits phase.splits)

subsection \<open>The log\<close>

lemma resultRecords_append:
  "resultRecords (s\<lparr>logFile := logFile s @ [ResultLine r]\<rparr>) = resultRecords s @ [r]"
  by (simp add: resultRecords_def)

lemma logInv_start:
  assumes "logInv s" and "tasks s = t # rest"
  shows "logInv (executeTask_start t (s\<lparr>tasks := rest\<rparr>))"
  using assms by (simp add: logInv_def executeTask_start_def allTasks_def resultRecords_def)

lemma logInv_settled:
  assumes "logInv s" and "distinct (inFlightIds s)" and "awaiting s i = Some (t, AwaitMain)"
  shows "logInv (executeTask_settled t outcome s)"
proof (cases "snd (main outcome)")
  case None
  from executing_split [OF assms(2,3), of "t\<lparr>status := COMPLETED\<rparr>" AwaitLog]
  obtain xs ys where "executing s = xs @ (t, AwaitMain) # ys"
    and "setExecuting (t\<lparr>status := COMPLETED\<rparr>) AwaitLog (executing s) =
      xs @ (t\<lparr>status := COMPLETED\<rparr>, AwaitLog) # ys"
    by auto
  then show ?thesis
    using assms(1) None
    by (simp add: logInv_def executeTask_settled_def Let_def allTasks_def resultRecords_def)
next
  case (Some msg)
  from executing_split [OF assms(2,3), of "t\<lparr>error_text := Some msg, status := FAILED\<rparr>" AwaitLog]
  obtain xs ys where "executing s = xs @ (t, AwaitMain) # ys"
    and "setExecuting (t\<lparr>error_text := Some msg, status := FAILED\<rparr>) AwaitLog (executing s) =
      xs @ (t\<lparr>error_text := Some msg, status := FAILED\<rparr>, AwaitLog) # ys"
    by auto
  then show ?thesis
    using assms(1) Some
    by (simp add: logInv_def executeTask_settled_def Let_def allTasks_def resultRecords_def)
qed

lemma logInv_logged:
  assumes "logInv s" and "distinct (inFlightIds s)" and "awaiting s i = Some (t, AwaitLog)"
  shows "logInv (executeTask_logged t s)"
proof -
  from executing_split [OF assms(2,3), of t AwaitFinally]
  obtain xs ys where ex: "executing s = xs @ (t, AwaitLog) # ys"
    and se: "setExecuting t AwaitFinally (executing s) = xs @ (t, AwaitFinally) # ys"
    by auto
  from assms(1) ex obtain a where a: "account t = Some a"
    by (auto simp: logInv_def allTasks_def)
  show ?thesis
    using assms(1) ex se a
    by (simp add: logInv_def executeTask_logged_def allTasks_def resultRecords_def)
qed

lemma logInv_finally:
  assumes "logInv s" and "distinct (inFlightIds s)" and "awaiting s i = Some (t, AwaitFinally)"
  shows "logInv (executeTask_finally t s)"
proof -
  from executing_split [OF assms(2,3), of t AwaitFinally]
  obtain xs ys where "executing s = xs @ (t, AwaitFinally) # ys"
    and "filter (\<lambda>(u, r). task_id u \<noteq> task_id t) (executing s) = xs @ ys"
    by auto
  then show ?thesis
    using assms(1)
    by (simp add: logInv_def executeTask_finally_def allTasks_def resultRecords_def)
qed

lemma logInv_event:
  assumes "logInv s" and "distinct (inFlightIds s)"
  shows "logInv (apply_event e s)"
  using assms
  by (cases e)
    (auto simp: logInv_settled logInv_logged logInv_finally split: option.splits phase.splits)

subsection \<open>All of it, along the loop\<close>

lemma idsInv_distinct: "idsInv ids s \<Longrightarrow> distinct (inFlightIds s)"
  by (auto simp: idsInv_def)

lemma poolInv_start:
  assumes "poolInv ids s" and "length (runningTasks s) < poolSize s" and "tasks s \<noteq> []"
  shows "poolInv ids (executeTask_start (hd (tasks s)) (s\<lparr>tasks := tl (tasks s)\<rparr>))"
proof -
  from assms(3) have t: "tasks s = hd (tasks s) # tl (tasks s)" by simp
  show ?thesis
    using assms(1,2) idsInv_start [OF _ t] statusInv_start [OF _ t] logInv_start [OF _ t]
      capacityInv_start [of s "hd (tasks s)" "tl (tasks s)"]
    by (simp add: poolInv_def)
qed

lemma poolInv_event: "poolInv ids s \<Longrightarrow> poolInv ids (apply_event e s)"
  using idsInv_event [of ids s e] statusInv_event [of s e] capacityInv_event [of s e]
    logInv_event [of s e] idsInv_distinct [of ids s]
  by (simp add: poolInv_def)

lemma poolSize_start:
  "poolSize (executeTask_start (hd (tasks s)) (s\<lparr>tasks := tl (tasks s)\<rparr>)) = poolSize s"
  by (simp add: executeTask_start_def)

lemma poolSize_event: "poolSize (apply_event e s) = poolSize s"
  by (cases e) (auto simp: settled_ids logged_ids finally_ids split: option.splits phase.splits)

lemma preserved_start:
  "preserved P \<Longrightarrow> P s \<Longrightarrow> length (runningTasks s) < poolSize s \<Longrightarrow> tasks s \<noteq> [] \<Longrightarrow>
   P (executeTask_start (hd (tasks s)) (s\<lparr>tasks := tl (tasks s)\<rparr>))"
  unfolding preserved_def by blast

lemma preserved_event: "preserved P \<Longrightarrow> P s \<Longrightarrow> P (apply_event e s)"
  unfolding preserved_def by blast

lemma preserved_poolInv: "preserved (\<lambda>s. poolInv ids s \<and> poolSize s = n)"
  unfolding preserved_def
proof (intro conjI allI impI)
  fix s
  assume a: "(poolInv ids s \<and> poolSize s = n) \<and> length (runningTasks s) < poolSize s \<and> tasks s \<noteq> []"
  then show "poolInv ids (executeTask_start (hd (tasks s)) (s\<lparr>tasks := tl (tasks s)\<rparr>))"
    by (intro poolInv_start) simp_all
  from a show "poolSize (executeTask_start (hd (tasks s)) (s\<lparr>tasks := tl (tasks s)\<rparr>)) = n"
    by (simp only: poolSize_start)
next
  fix s e
  assume a: "poolInv ids s \<and> poolSize s = n"
  then show "poolInv ids (apply_event e s)" by (intro poolInv_event) simp
  from a show "poolSize (apply_event e s) = n" by (simp only: poolSize_event)
qed

lemma preserved_events: "preserved P \<Longrightarrow> P s \<Longrightarrow> P (apply_events evs s)"
  unfolding apply_events_def
proof (induction evs arbitrary: s)
  case Nil
  then show ?case by simp
next
  case (Cons e evs)
  have "P (apply_event e s)" using Cons.prems by (rule preserved_event)
  with Cons.prems(1) have "P (foldl (\<lambda>s e. apply_event e s) (apply_event e s) evs)"
    by (rule Cons.IH)
  then show ?case by simp
qed


lemma preserved_admit: "preserved P \<Longrightarrow> P s \<Longrightarrow> P (admit s)"
proof (induction s rule: admit.induct)
  case (1 s)
  show ?case
  proof (cases "length (runningTasks s) < poolSize s \<and> tasks s \<noteq> []")
    case True
    then have "P (executeTask_start (hd (tasks s)) (s\<lparr>tasks := tl (tasks s)\<rparr>))"
      using "1.prems" by (intro preserved_start [where P = P]) simp_all
    then have "P (admit (executeTask_start (hd (tasks s)) (s\<lparr>tasks := tl (tasks s)\<rparr>)))"
      using True "1.prems"(1) by (intro "1.IH") simp_all
    then show ?thesis using True by (subst admit.simps) simp
  next
    case False
    then show ?thesis using "1.prems" by (subst admit.simps) auto
  qed
qed



lemma preserved_run_loop:
  "preserved P \<Longrightarrow> P s \<Longrightarrow> run_loop sched s = Some s' \<Longrightarrow> P s'"
proof (induction sched arbitrary: s)
  case Nil
  then show ?case by (simp split: if_splits)
next
  case (Cons evs sched)
  show ?case
  proof (cases "tasks s \<noteq> [] \<or> runningTasks s \<noteq> []")
    case True
    have "P (admit s)"
      using Cons.prems(1,2) by (rule preserved_admit)
    with Cons.prems(1) have "P (apply_events evs (admit s))"
      by (rule preserved_events)
    moreover have "run_loop sched (apply_events evs (admit s)) = Some s'"
      using Cons.prems(3) True by simp
    ultimately show ?thesis using Cons.prems(1) by (intro Cons.IH)
  next
    case False
    then show ?thesis using Cons.prems by simp
  qed
qed

lemma run_loop_exit:
  "run_loop sched s = Some s' \<Longrightarrow> tasks s' = [] \<and> runningTasks s' = []"
proof (induction sched arbitrary: s)
  case Nil
  then show ?case by (simp split: if_splits)
next
  case (Cons evs sched)
  then show ?case by (cases "tasks s \<noteq> [] \<or> runningTasks s \<noteq> []") auto
qed

subsection \<open>The pool that \<open>addTasks\<close> builds\<close>

lemma addTasksLoop_new_tasks:
  "addTasksLoop i k (ts, am, out) = (ts', am', out') \<Longrightarrow>
   \<exists>new. ts' = ts @ new \<and> distinct (map task_id new) \<and>
     (\<forall>t\<in>set new. i \<le> task_id t \<and> status t = PENDING \<and> account t \<noteq> None)"
proof (induction k arbitrary: i ts am out)
  case 0
  then show ?case by simp
next
  case (Suc k)
  obtain r am1 where g: "getNextAccount am = (r, am1)" by (cases "getNextAccount am")
  show ?case
  proof (cases r)
    case None
    then have "addTasksLoop (Suc i) k (ts, am1, out @ [WarnNoAccount i]) = (ts', am', out')"
      using Suc.prems g by simp
    from Suc.IH [OF this] obtain new where "ts' = ts @ new" "distinct (map task_id new)"
      "\<forall>t\<in>set new. Suc i \<le> task_id t \<and> status t = PENDING \<and> account t \<noteq> None"
      by blast
    then show ?thesis by (intro exI [of _ new]) auto
  next
    case (Some a)
    let ?t = "\<lparr>task_id = i, status = PENDING, error_text = None, account = Some a\<rparr>"
    have "addTasksLoop (Suc i) k (ts @ [?t], markAccountAsUsed (email a) am1, out) = (ts', am', out')"
      using Suc.prems g Some by simp
    from Suc.IH [OF this] obtain new where n: "ts' = (ts @ [?t]) @ new" "distinct (map task_id new)"
      "\<forall>t\<in>set new. Suc i \<le> task_id t \<and> status t = PENDING \<and> account t \<noteq> None"
      by blast
    then have "i \<notin> set (map task_id new)" by auto
    then show ?thesis using n by (intro exI [of _ "?t # new"]) auto
  qed
qed

lemma enqueued_pool:
  assumes "enqueued n taskCount file = Some pool"
  shows "\<exists>ts. pool = (newTaskPool n)\<lparr>tasks := ts, logFile := [BatchStart (length ts)]\<rparr> \<and>
           distinct (map task_id ts) \<and>
           (\<forall>t\<in>set ts. status t = PENDING \<and> account t \<noteq> None)"
proof -
  from assms obtain am1 ts am2 out where
    l: "addTasksLoop 1 taskCount ([], am1, []) = (ts, am2, out)"
    and p: "pool = (newTaskPool n)\<lparr>tasks := ts, logFile := [BatchStart (length ts)]\<rparr>"
    by (auto simp: enqueued_def addTasks_def newTaskPool_def
        split: sum.splits if_splits prod.splits)
  from addTasksLoop_new_tasks [OF l] have "distinct (map task_id ts)"
    and "\<forall>t\<in>set ts. status t = PENDING \<and> account t \<noteq> None"
    by auto
  then show ?thesis using p by blast
qed

lemma poolInv_profiles: "poolInv ids (s\<lparr>profiles := x\<rparr>) = poolInv ids s"
  by (simp add: poolInv_def idsInv_def statusInv_def capacityInv_def logInv_def pendingIds_def
      inFlightIds_def returnedIds_def allTasks_def resultRecords_def)

lemma poolInv_enqueued:
  assumes "enqueued n taskCount file = Some pool"
  shows "poolInv (map task_id (tasks pool)) (pool\<lparr>profiles := []\<rparr>)"
proof -
  from enqueued_pool [OF assms] obtain ts where
    p: "pool = (newTaskPool n)\<lparr>tasks := ts, logFile := [BatchStart (length ts)]\<rparr>"
    and d: "distinct (map task_id ts)"
    and a: "\<forall>t\<in>set ts. status t = PENDING \<and> account t \<noteq> None"
    by blast
  have "poolInv (map task_id (tasks pool)) pool"
    using d a
    by (simp add: p poolInv_def idsInv_def statusInv_def capacityInv_def logInv_def pendingIds_def
        inFlightIds_def returnedIds_def allTasks_def resultRecords_def newTaskPool_def list_all_iff)
  then show ?thesis by (simp add: poolInv_profiles)
qed


lemma poolInv_run:
  assumes "enqueued n taskCount file = Some pool" and "run_loop sched (pool\<lparr>profiles := []\<rparr>) = Some s"
  shows "poolInv (map task_id (tasks pool)) s"
proof -
  let ?P = "\<lambda>s. poolInv (map task_id (tasks pool)) s \<and> poolSize s = n"
  have "poolSize pool = n"
    using enqueued_pool [OF assms(1)] by (auto simp: newTaskPool_def)
  then have i: "?P (pool\<lparr>profiles := []\<rparr>)"
    using poolInv_enqueued [OF assms(1)] by simp
  from preserved_poolInv i assms(2) have "?P s" by (rule preserved_run_loop)
  then show ?thesis by simp
qed

subsection \<open>The number of running tasks\<close>


subsection \<open>What the admission loop does\<close>






end
